theory Spec2Isabelle
  imports Main "HOL-Library.Sublist"
begin

section \<open>Values shared by the controller\<close>

text \<open>
  A Go \<open>error\<close> is an interface value. The controller meets two shapes of it:
  the plain error built by \<open>errors.New(msg)\<close>, and the status error of the cluster
  API, whose reason \<open>k8serrors.IsNotFound\<close> inspects. A nil error is \<open>None\<close>.
\<close>

datatype error = ErrorString string | StatusError string string

definition errors_New :: "string \<Rightarrow> error" where
  "errors_New msg = ErrorString msg"

fun IsNotFound :: "error \<Rightarrow> bool" where
  "IsNotFound (StatusError reason msg) = (reason = ''NotFound'')"
| "IsNotFound (ErrorString msg) = False"

text \<open>
  A run-time panic of the Go program. No function of the controller recovers from
  one, so a panic ends the call chain: every function that can panic returns an
  \<open>outcome\<close>.
\<close>

datatype panic = IndexOutOfRange | NilDereference | PanicError error

datatype 'a outcome = Panicked panic | Returned 'a

datatype ResourceStatus = Ready | NotReady

text \<open>
  The control functions appended by \<open>addResourcesControls\<close> are the package-level
  functions of these names; a \<open>controlFunc\<close> is a slice of them.
\<close>

datatype control = Namespace | ServiceAccount | ClusterRole | ClusterRoleBinding
  | Role | RoleBinding | ConfigMap | DaemonSet | Service | SecurityContextConstraints

type_synonym controlFunc = "control list"

text \<open>
  \<open>Resources\<close>: one field per kind the operator owns. The typed Kubernetes objects
  are opaque to this code, so every field has the one object type \<open>'o\<close>.
\<close>

record 'o Resources =
  res_Namespace :: 'o
  res_ServiceAccount :: 'o
  res_Role :: 'o
  res_RoleBinding :: 'o
  res_ClusterRole :: 'o
  res_ClusterRoleBinding :: 'o
  res_ConfigMap :: 'o
  res_DaemonSet :: 'o
  res_Pod :: 'o
  res_Service :: 'o
  res_SecurityContextConstraints :: 'o

text \<open>
  \<open>NFD\<close>: the stepper. \<open>rec\<close> and \<open>ins\<close> are pointers (nil is \<open>None\<close>);
  \<open>idx\<close> is a Go \<open>int\<close>. It only ever holds values between 0 and the number of
  stages, far below \<open>2^63\<close>, so \<open>idx + 1\<close> is modelled on the integers.
\<close>

record ('r, 'i, 'o) NFD =
  resources :: "'o Resources list"
  controls :: "controlFunc list"
  rec :: "'r option"
  ins :: "'i option"
  idx :: int

section \<open>The readiness stepper\<close>

text \<open>
  The bodies of the control functions are defined elsewhere in the package; what each
  of them does is a parameter here. A control function receives a copy of the stepper
  (\<open>fs(*n)\<close>), talks to the cluster \<open>'w\<close>, and returns a status and an error. It
  cannot change the caller's stepper through the copy it is given.
\<close>

type_synonym ('r, 'i, 'o, 'w) control_sem =
  "control \<Rightarrow> ('r, 'i, 'o) NFD \<Rightarrow> 'w \<Rightarrow> (ResourceStatus \<times> error option) \<times> 'w"

text \<open>One entry per invocation \<open>fs(*n)\<close>: the function called and what it returned.\<close>

type_synonym call = "control \<times> ResourceStatus \<times> error option"

text \<open>
  The \<open>for _, fs := range n.controls[n.idx]\<close> loop of \<open>step\<close>: the error to return
  (\<open>None\<close> when the loop runs to its end), the cluster afterwards, and the calls made.
\<close>

fun step_loop :: "('r, 'i, 'o, 'w) control_sem \<Rightarrow> controlFunc \<Rightarrow> ('r, 'i, 'o) NFD \<Rightarrow> 'w
    \<Rightarrow> error option \<times> 'w \<times> call list" where
  "step_loop sem [] n w = (None, w, [])"
| "step_loop sem (fs # rest) n w =
     (case sem fs n w of ((stat, err), w') \<Rightarrow>
        (case err of
           Some e \<Rightarrow> (Some e, w', [(fs, stat, err)])
         | None \<Rightarrow>
             if stat \<noteq> Ready then (Some (errors_New ''ResourceNotReady''), w', [(fs, stat, err)])
             else (case step_loop sem rest n w' of
                     (r, w'', calls) \<Rightarrow> (r, w'', (fs, stat, err) # calls))))"

text \<open>
  \<open>step\<close>: indexing \<open>n.controls[n.idx]\<close> panics when the cursor is outside the slice;
  the cursor advances only when the loop ran to its end.
\<close>

definition step :: "('r, 'i, 'o, 'w) control_sem \<Rightarrow> ('r, 'i, 'o) NFD \<Rightarrow> 'w
    \<Rightarrow> (error option \<times> ('r, 'i, 'o) NFD \<times> 'w \<times> call list) outcome" where
  "step sem n w =
     (if idx n < 0 \<or> int (length (controls n)) \<le> idx n then Panicked IndexOutOfRange
      else (case step_loop sem (controls n ! nat (idx n)) n w of
              (Some e, w', calls) \<Rightarrow> Returned (Some e, n, w', calls)
            | (None, w', calls) \<Rightarrow> Returned (None, n\<lparr>idx := idx n + 1\<rparr>, w', calls)))"

definition last_stage :: "('r, 'i, 'o) NFD \<Rightarrow> bool" where
  "last_stage n = (idx n = int (length (controls n)))"


section \<open>Extracting the kind label\<close>

text \<open>
  \<open>regexp.Compile\<close> and \<open>FindString\<close> belong to Go's library. The model is a
  backtracking matcher for the constructs the pattern uses: a literal byte, the two
  zero-width assertions \<open>\b\<close> and \<open>\B\<close>, and a greedy star of a character class.
  For a pattern without alternation Go's leftmost-first match is the first match a
  backtracking search finds, the star trying its longest repetition first. The capture
  group of the pattern plays no part in \<open>FindString\<close>.

  Strings are byte strings. \<open>\w\<close> and \<open>\b\<close> are ASCII-only in Go, and \<open>.\<close>
  matches every code point but the newline; since a position inside a multi-byte code
  point is never a word boundary, matching the final \<open>.*\b\<close> byte by byte finds the
  same end as matching it code point by code point.
\<close>

definition is_word_char :: "char \<Rightarrow> bool" where
  "is_word_char c =
     (let k = (of_char c :: nat)
      in (48 \<le> k \<and> k \<le> 57) \<or> (65 \<le> k \<and> k \<le> 90) \<or> k = 95 \<or> (97 \<le> k \<and> k \<le> 122))"

datatype char_class = WordClass | AnyCharNotNL

fun in_class :: "char_class \<Rightarrow> char \<Rightarrow> bool" where
  "in_class WordClass c = is_word_char c"
| "in_class AnyCharNotNL c = (c \<noteq> CHR 0x0A)"

datatype atom = WordBoundary | NoWordBoundary | Literal char | Star char_class

text \<open>
  A position is a word boundary when exactly one of the byte before it and the byte
  after it is a word character; the two ends of the text count as non-word.
\<close>

definition at_word_boundary :: "char option \<Rightarrow> string \<Rightarrow> bool" where
  "at_word_boundary prev s =
     ((case prev of None \<Rightarrow> False | Some c \<Rightarrow> is_word_char c)
        \<noteq> (case s of [] \<Rightarrow> False | c # cs \<Rightarrow> is_word_char c))"

text \<open>
  \<open>rmatch re prev s\<close>: match the atoms \<open>re\<close> at the start of \<open>s\<close>, the byte before
  being \<open>prev\<close>; the result is the text left after the match.
\<close>

fun rmatch :: "atom list \<Rightarrow> char option \<Rightarrow> string \<Rightarrow> string option" where
  "rmatch [] prev s = Some s"
| "rmatch (WordBoundary # re) prev s =
     (if at_word_boundary prev s then rmatch re prev s else None)"
| "rmatch (NoWordBoundary # re) prev s =
     (if at_word_boundary prev s then None else rmatch re prev s)"
| "rmatch (Literal c # re) prev [] = None"
| "rmatch (Literal c # re) prev (x # xs) =
     (if x = c then rmatch re (Some x) xs else None)"
| "rmatch (Star k # re) prev [] = rmatch re prev []"
| "rmatch (Star k # re) prev (x # xs) =
     (if in_class k x
      then (case rmatch (Star k # re) (Some x) xs of
              Some r \<Rightarrow> Some r
            | None \<Rightarrow> rmatch re prev (x # xs))
      else rmatch re prev (x # xs))"

text \<open>The leftmost match: the first start position, from the left, where the pattern matches.\<close>

fun find_from :: "atom list \<Rightarrow> char option \<Rightarrow> string \<Rightarrow> string option" where
  "find_from re prev [] = (case rmatch re prev [] of Some r \<Rightarrow> Some [] | None \<Rightarrow> None)"
| "find_from re prev (x # xs) =
     (case rmatch re prev (x # xs) of
        Some r \<Rightarrow> Some (take (length (x # xs) - length r) (x # xs))
      | None \<Rightarrow> find_from re (Some x) xs)"

text \<open>\<open>FindString\<close> returns the empty string when nothing matches.\<close>

definition FindString :: "atom list \<Rightarrow> string \<Rightarrow> string" where
  "FindString re s = (case find_from re None s of Some m \<Rightarrow> m | None \<Rightarrow> [])"

text \<open>The pattern \<^verbatim>\<open>\b(\w*kind:\w*)\B.*\b\<close> of \<open>addResourcesControls\<close>.\<close>

definition reg :: "atom list" where
  "reg = [WordBoundary, Star WordClass,
          Literal CHR ''k'', Literal CHR ''i'', Literal CHR ''n'', Literal CHR ''d'',
          Literal CHR '':'', Star WordClass, NoWordBoundary, Star AnyCharNotNL, WordBoundary]"

text \<open>
  \<open>strings.Split(s, sep)\<close> for a separator of one byte (the code splits at \<open>":"\<close>):
  the pieces between the separators; the empty string gives one empty piece.
\<close>

fun Split :: "string \<Rightarrow> char \<Rightarrow> string list" where
  "Split [] sep = [[]]"
| "Split (x # xs) sep =
     (if x = sep then [] # Split xs sep
      else (case Split xs sep of [] \<Rightarrow> [[x]] | p # ps \<Rightarrow> (x # p) # ps))"

text \<open>
  \<open>strings.TrimSpace\<close> removes the leading and the trailing white space as
  \<open>unicode.IsSpace\<close> defines it. These are the UTF-8 encodings of its code points:
  U+0009 to U+000D, U+0020, U+0085, U+00A0, U+1680, U+2000 to U+200A, U+2028, U+2029,
  U+202F, U+205F, U+3000. No encoding is a prefix or a suffix of another one.
\<close>

definition space_runes :: "string list" where
  "space_runes =
     [[CHR 0x09], [CHR 0x0A], [CHR 0x0B], [CHR 0x0C], [CHR 0x0D], [CHR 0x20],
      [CHR 0xC2, CHR 0x85], [CHR 0xC2, CHR 0xA0], [CHR 0xE1, CHR 0x9A, CHR 0x80],
      [CHR 0xE2, CHR 0x80, CHR 0x80], [CHR 0xE2, CHR 0x80, CHR 0x81],
      [CHR 0xE2, CHR 0x80, CHR 0x82], [CHR 0xE2, CHR 0x80, CHR 0x83],
      [CHR 0xE2, CHR 0x80, CHR 0x84], [CHR 0xE2, CHR 0x80, CHR 0x85],
      [CHR 0xE2, CHR 0x80, CHR 0x86], [CHR 0xE2, CHR 0x80, CHR 0x87],
      [CHR 0xE2, CHR 0x80, CHR 0x88], [CHR 0xE2, CHR 0x80, CHR 0x89],
      [CHR 0xE2, CHR 0x80, CHR 0x8A], [CHR 0xE2, CHR 0x80, CHR 0xA8],
      [CHR 0xE2, CHR 0x80, CHR 0xA9], [CHR 0xE2, CHR 0x80, CHR 0xAF],
      [CHR 0xE2, CHR 0x81, CHR 0x9F], [CHR 0xE3, CHR 0x80, CHR 0x80]]"

text \<open>The number of bytes of the rune among \<open>runes\<close> that \<open>s\<close> starts with, or 0.\<close>

fun rune_width :: "string list \<Rightarrow> string \<Rightarrow> nat" where
  "rune_width [] s = 0"
| "rune_width (p # ps) s = (if p \<noteq> [] \<and> prefix p s then length p else rune_width ps s)"

function trim_left :: "string list \<Rightarrow> string \<Rightarrow> string" where
  "trim_left runes s =
     (if rune_width runes s = 0 then s else trim_left runes (drop (rune_width runes s) s))"
  by pat_completeness auto

lemma rune_width_le: "rune_width runes s \<le> length s"
  by (induction runes) (auto simp: prefix_def)

termination trim_left
proof (relation "measure (\<lambda>(runes, s). length s)")
  show "wf (measure (\<lambda>(runes, s). length s))" by simp
next
  fix runes :: "string list" and s :: string
  assume "rune_width runes s \<noteq> 0"
  moreover have "rune_width runes s \<le> length s" by (rule rune_width_le)
  ultimately show "((runes, drop (rune_width runes s) s), (runes, s))
      \<in> measure (\<lambda>(runes, s). length s)"
    by simp
qed

declare trim_left.simps [simp del]

definition TrimSpace :: "string \<Rightarrow> string" where
  "TrimSpace s = rev (trim_left (map rev space_runes) (rev (trim_left space_runes s)))"

text \<open>
  The first three statements of the loop body: the kind label of a manifest.
  \<open>slce[1]\<close> panics when the split gave a single piece.
\<close>

definition manifest_kind :: "string \<Rightarrow> string outcome" where
  "manifest_kind m =
     (let kind = FindString reg m;
          slce = Split kind CHR '':''
      in if length slce \<le> 1 then Panicked IndexOutOfRange
         else Returned (TrimSpace (slce ! 1)))"


section \<open>Building a stage\<close>

text \<open>
  The file system and the YAML serializer belong to libraries; they are the fields of
  an environment.
  \<^item> \<open>Walk root\<close>: the calls \<open>filepath.Walk\<close> makes to its callback, in order, each
    with the path and \<open>info.IsDir()\<close> (\<open>None\<close> when \<open>info\<close> is nil), and the error
    \<open>Walk\<close> returns.
  \<^item> \<open>ReadFile\<close>: \<open>ioutil.ReadFile\<close>.
  \<^item> \<open>Decode c m obj\<close>: \<open>s.Decode(m, nil, &res.F)\<close>, where \<open>F\<close> is the field that
    holds \<open>obj\<close> before the call; \<open>c\<close> stands for the Go type of that field. The
    result is the error, or the object the field holds afterwards.
  \<^item> \<open>ZeroResources\<close>: the zero value \<open>Resources{}\<close>.
\<close>

record 'o files =
  Walk :: "string \<Rightarrow> (string \<times> bool option) list \<times> error option"
  ReadFile :: "string \<Rightarrow> error + string"
  Decode :: "control \<Rightarrow> string \<Rightarrow> 'o \<Rightarrow> error + 'o"
  ZeroResources :: "'o Resources"

text \<open>The callback of \<open>filePathWalkDir\<close> calls \<open>info.IsDir()\<close> before anything else.\<close>

fun walk_visits :: "(string \<times> bool option) list \<Rightarrow> string list \<Rightarrow> string list outcome" where
  "walk_visits [] fs = Returned fs"
| "walk_visits ((path, None) # vs) fs = Panicked NilDereference"
| "walk_visits ((path, Some isDir) # vs) fs =
     (if \<not> isDir then walk_visits vs (fs @ [path]) else walk_visits vs fs)"

definition filePathWalkDir :: "'o files \<Rightarrow> string \<Rightarrow> (string list \<times> error option) outcome" where
  "filePathWalkDir env root =
     (case Walk env root of (visits, err) \<Rightarrow>
        (case walk_visits visits [] of
           Panicked p \<Rightarrow> Panicked p
         | Returned fs \<Rightarrow> Returned (fs, err)))"

fun read_all :: "'o files \<Rightarrow> string list \<Rightarrow> string list \<Rightarrow> string list outcome" where
  "read_all env [] manifests = Returned manifests"
| "read_all env (file # fs) manifests =
     (case ReadFile env file of
        Inl err \<Rightarrow> Panicked (PanicError err)
      | Inr buffer \<Rightarrow> read_all env fs (manifests @ [buffer]))"

definition getAssetsFrom :: "'o files \<Rightarrow> string \<Rightarrow> string list outcome" where
  "getAssetsFrom env path =
     (case filePathWalkDir env path of
        Panicked p \<Rightarrow> Panicked p
      | Returned (fs, Some err) \<Rightarrow> Panicked (PanicError err)
      | Returned (fs, None) \<Rightarrow> read_all env fs [])"

text \<open>
  The \<open>switch kind\<close> of \<open>addResourcesControls\<close>, in the order of its cases. Each case
  decodes into the field of \<open>Resources\<close> that bears the name of the kind and appends
  the control function of the same name; \<open>Pod\<close> has a field and no case.
\<close>

definition switch_kind :: "string \<Rightarrow> control option" where
  "switch_kind kind =
     (if kind = ''Namespace'' then Some Namespace
      else if kind = ''ServiceAccount'' then Some ServiceAccount
      else if kind = ''ClusterRole'' then Some ClusterRole
      else if kind = ''ClusterRoleBinding'' then Some ClusterRoleBinding
      else if kind = ''Role'' then Some Role
      else if kind = ''RoleBinding'' then Some RoleBinding
      else if kind = ''ConfigMap'' then Some ConfigMap
      else if kind = ''DaemonSet'' then Some DaemonSet
      else if kind = ''Service'' then Some Service
      else if kind = ''SecurityContextConstraints'' then Some SecurityContextConstraints
      else None)"

fun field_of :: "control \<Rightarrow> 'o Resources \<Rightarrow> 'o" where
  "field_of Namespace res = res_Namespace res"
| "field_of ServiceAccount res = res_ServiceAccount res"
| "field_of ClusterRole res = res_ClusterRole res"
| "field_of ClusterRoleBinding res = res_ClusterRoleBinding res"
| "field_of Role res = res_Role res"
| "field_of RoleBinding res = res_RoleBinding res"
| "field_of ConfigMap res = res_ConfigMap res"
| "field_of DaemonSet res = res_DaemonSet res"
| "field_of Service res = res_Service res"
| "field_of SecurityContextConstraints res = res_SecurityContextConstraints res"

fun field_upd :: "control \<Rightarrow> 'o \<Rightarrow> 'o Resources \<Rightarrow> 'o Resources" where
  "field_upd Namespace obj res = res\<lparr>res_Namespace := obj\<rparr>"
| "field_upd ServiceAccount obj res = res\<lparr>res_ServiceAccount := obj\<rparr>"
| "field_upd ClusterRole obj res = res\<lparr>res_ClusterRole := obj\<rparr>"
| "field_upd ClusterRoleBinding obj res = res\<lparr>res_ClusterRoleBinding := obj\<rparr>"
| "field_upd Role obj res = res\<lparr>res_Role := obj\<rparr>"
| "field_upd RoleBinding obj res = res\<lparr>res_RoleBinding := obj\<rparr>"
| "field_upd ConfigMap obj res = res\<lparr>res_ConfigMap := obj\<rparr>"
| "field_upd DaemonSet obj res = res\<lparr>res_DaemonSet := obj\<rparr>"
| "field_upd Service obj res = res\<lparr>res_Service := obj\<rparr>"
| "field_upd SecurityContextConstraints obj res = res\<lparr>res_SecurityContextConstraints := obj\<rparr>"

text \<open>
  The \<open>for _, m := range manifests\<close> loop. Its state is the bundle, the control list
  and the kinds passed to \<open>log.Info("Unknown Resource: ", "Kind", kind)\<close>.
  \<open>panicIfError\<close> panics with the decode error.
\<close>

fun manifests_loop :: "'o files \<Rightarrow> string list \<Rightarrow> 'o Resources \<times> controlFunc \<times> string list
    \<Rightarrow> ('o Resources \<times> controlFunc \<times> string list) outcome" where
  "manifests_loop env [] st = Returned st"
| "manifests_loop env (m # ms) (res, ctrl, logged) =
     (case manifest_kind m of
        Panicked p \<Rightarrow> Panicked p
      | Returned kind \<Rightarrow>
          (case switch_kind kind of
             Some c \<Rightarrow>
               (case Decode env c m (field_of c res) of
                  Inl err \<Rightarrow> Panicked (PanicError err)
                | Inr obj \<Rightarrow> manifests_loop env ms (field_upd c obj res, ctrl @ [c], logged))
           | None \<Rightarrow> manifests_loop env ms (res, ctrl, logged @ [kind])))"

definition addResourcesControls :: "'o files \<Rightarrow> string
    \<Rightarrow> ('o Resources \<times> controlFunc \<times> string list) outcome" where
  "addResourcesControls env path =
     (case getAssetsFrom env path of
        Panicked p \<Rightarrow> Panicked p
      | Returned manifests \<Rightarrow> manifests_loop env manifests (ZeroResources env, [], []))"

section \<open>Initialising the stepper\<close>

definition addState :: "'o files \<Rightarrow> ('r, 'i, 'o) NFD \<Rightarrow> string
    \<Rightarrow> (('r, 'i, 'o) NFD \<times> string list) outcome" where
  "addState env n path =
     (case addResourcesControls env path of
        Panicked p \<Rightarrow> Panicked p
      | Returned (res, ctrl, logged) \<Rightarrow>
          Returned (n\<lparr>controls := controls n @ [ctrl], resources := resources n @ [res]\<rparr>, logged))"

text \<open>\<open>init\<close>, with the log entries of the stage construction it ran.\<close>

definition init :: "'o files \<Rightarrow> 'r \<Rightarrow> 'i \<Rightarrow> ('r, 'i, 'o) NFD
    \<Rightarrow> (('r, 'i, 'o) NFD \<times> string list) outcome" where
  "init env r i n =
     (let n0 = n\<lparr>rec := Some r, ins := Some i, idx := 0\<rparr>
      in if length (controls n0) = 0
         then (case addState env n0 ''/opt/nfd/master'' of
                 Panicked p \<Rightarrow> Panicked p
               | Returned (n1, logged1) \<Rightarrow>
                   (case addState env n1 ''/opt/nfd/worker'' of
                      Panicked p \<Rightarrow> Panicked p
                    | Returned (n2, logged2) \<Rightarrow> Returned (n2, logged1 @ logged2)))
         else Returned (n0, []))"

section \<open>Reconcile\<close>

record Result =
  Requeue :: bool
  RequeueAfter :: int

text \<open>The zero value \<open>reconcile.Result{}\<close> (\<open>ctrl.Result\<close> is the same type).\<close>

definition Result_zero :: Result where
  "Result_zero = \<lparr>Requeue = False, RequeueAfter = 0\<rparr>"

text \<open>
  The \<open>for { ... }\<close> loop of \<open>Reconcile\<close>: the error it returns with (\<open>None\<close> when it
  ends at the \<open>break\<close>), the stepper, the cluster and every control function call made.
\<close>

function reconcile_loop :: "('r, 'i, 'o, 'w) control_sem \<Rightarrow> ('r, 'i, 'o) NFD \<Rightarrow> 'w
    \<Rightarrow> (error option \<times> ('r, 'i, 'o) NFD \<times> 'w \<times> call list) outcome" where
  "reconcile_loop sem n w =
     (case step sem n w of
        Panicked p \<Rightarrow> Panicked p
      | Returned (err, n', w', calls) \<Rightarrow>
          if err \<noteq> None then Returned (err, n', w', calls)
          else if last_stage n' then Returned (None, n', w', calls)
          else (case reconcile_loop sem n' w' of
                  Panicked p \<Rightarrow> Panicked p
                | Returned (err', n'', w'', calls') \<Rightarrow> Returned (err', n'', w'', calls @ calls')))"
  by pat_completeness auto

lemma step_Returned_idx:
  assumes "step sem n w = Returned (err, n', w', calls)"
  shows "0 \<le> idx n" and "idx n < int (length (controls n))"
    and "controls n' = controls n"
    and "idx n' = (if err = None then idx n + 1 else idx n)"
  using assms by (auto simp: step_def split: if_splits prod.splits option.splits)

lemma step_measure:
  assumes "step sem n w = Returned (None, n', w', calls)"
  shows "nat (int (length (controls n')) - idx n') < nat (int (length (controls n)) - idx n)"
  using step_Returned_idx [OF assms] by simp

termination reconcile_loop
proof (relation "measure (\<lambda>(sem, n, w). nat (int (length (controls n)) - idx n))")
  show "wf (measure (\<lambda>(sem, n, w). nat (int (length (controls n)) - idx n)))" by simp
next
  fix sem :: "('r, 'i, 'o, 'w) control_sem" and n :: "('r, 'i, 'o) NFD" and w :: 'w
    and x2 x y xa ya xb yb
  assume a: "step sem n w = Returned x2" "(x, y) = x2" "(xa, ya) = y" "(xb, yb) = ya"
    and b: "\<not> x \<noteq> None"
  from a b have "step sem n w = Returned (None, xa, xb, yb)" by auto
  from step_measure [OF this]
  show "((sem, xa, xb), (sem, n, w))
      \<in> measure (\<lambda>(sem, n, w). nat (int (length (controls n)) - idx n))"
    by simp
qed

declare reconcile_loop.simps [simp del]

text \<open>
  What \<open>Reconcile\<close> leaves behind: the returned pair, the package-level stepper \<open>nfd\<close>,
  the cluster, the control function calls made and the kinds logged as unknown. The
  messages of \<open>r.Log\<close> are not modelled.
\<close>

record ('r, 'i, 'o, 'w) reconciled =
  result :: Result
  err :: "error option"
  nfd :: "('r, 'i, 'o) NFD"
  cluster :: 'w
  invoked :: "call list"
  unknown_logged :: "string list"

text \<open>\<open>Get r req w\<close>: \<open>r.Get(ctx, req.NamespacedName, instance)\<close> against the cluster.\<close>

definition Reconcile :: "('r \<Rightarrow> 'q \<Rightarrow> 'w \<Rightarrow> error + 'i) \<Rightarrow> 'o files \<Rightarrow> ('r, 'i, 'o, 'w) control_sem
    \<Rightarrow> 'r \<Rightarrow> 'q \<Rightarrow> ('r, 'i, 'o) NFD \<Rightarrow> 'w \<Rightarrow> ('r, 'i, 'o, 'w) reconciled outcome" where
  "Reconcile Get env sem r req n w =
     (case Get r req w of
        Inl e \<Rightarrow>
          if IsNotFound e
          then Returned \<lparr>result = \<lparr>Requeue = False, RequeueAfter = 0\<rparr>, err = None, nfd = n,
                 cluster = w, invoked = [], unknown_logged = []\<rparr>
          else Returned \<lparr>result = \<lparr>Requeue = True, RequeueAfter = 0\<rparr>, err = Some e, nfd = n,
                 cluster = w, invoked = [], unknown_logged = []\<rparr>
      | Inr inst \<Rightarrow>
          (case init env r inst n of
             Panicked p \<Rightarrow> Panicked p
           | Returned (n0, logged) \<Rightarrow>
               (case reconcile_loop sem n0 w of
                  Panicked p \<Rightarrow> Panicked p
                | Returned (e, n', w', calls) \<Rightarrow>
                    Returned \<lparr>result = Result_zero, err = e, nfd = n', cluster = w',
                      invoked = calls, unknown_logged = logged\<rparr>)))"


section \<open>Notions used to state the properties\<close>

text \<open>A call that reported ready: status \<open>Ready\<close> and a nil error.\<close>

definition ready_call :: "call \<Rightarrow> bool" where
  "ready_call c = (snd c = (Ready, None))"

text \<open>The cluster after the control functions \<open>fs\<close> have run one after the other.\<close>

definition cluster_after :: "('r, 'i, 'o, 'w) control_sem \<Rightarrow> ('r, 'i, 'o) NFD \<Rightarrow> 'w
    \<Rightarrow> control list \<Rightarrow> 'w" where
  "cluster_after sem n w fs = foldl (\<lambda>w f. snd (sem f n w)) w fs"

text \<open>
  \<open>k\<close> calls of \<open>step\<close> in a row, whatever each one returns: the errors returned, in
  order, and the stepper and the cluster after the last call.
\<close>

fun step_seq :: "('r, 'i, 'o, 'w) control_sem \<Rightarrow> nat \<Rightarrow> ('r, 'i, 'o) NFD \<Rightarrow> 'w
    \<Rightarrow> (error option list \<times> ('r, 'i, 'o) NFD \<times> 'w) outcome" where
  "step_seq sem 0 n w = Returned ([], n, w)"
| "step_seq sem (Suc k) n w =
     (case step sem n w of
        Panicked p \<Rightarrow> Panicked p
      | Returned (r, n1, w1, calls) \<Rightarrow>
          (case step_seq sem k n1 w1 of
             Panicked p \<Rightarrow> Panicked p
           | Returned (rs, n2, w2) \<Rightarrow> Returned (r # rs, n2, w2)))"

text \<open>
  A stepper and a cluster to run the properties on. The cluster is a counter of the
  control function calls made; \<open>ConfigMap\<close> reports not ready, \<open>DaemonSet\<close> fails
  with an error, every other control function reports ready.
\<close>

definition ex_sem :: "(unit, unit, string, nat) control_sem" where
  "ex_sem f n w =
     ((if f = ConfigMap then (NotReady, None)
       else if f = DaemonSet then (NotReady, Some (ErrorString ''ResourceNotReady''))
       else (Ready, None)), Suc w)"

definition ex_nfd :: "controlFunc list \<Rightarrow> int \<Rightarrow> (unit, unit, string) NFD" where
  "ex_nfd stages i = \<lparr>resources = [], controls = stages, rec = None, ins = None, idx = i\<rparr>"

text \<open>
  The error \<open>step\<close> returns for a call that did not report ready: the error of the
  control function when it returned one, the \<open>ResourceNotReady\<close> error otherwise.
\<close>

definition halt_error :: "error option \<Rightarrow> error" where
  "halt_error e = (case e of Some e' \<Rightarrow> e' | None \<Rightarrow> errors_New ''ResourceNotReady'')"

text \<open>
  A cluster API whose \<open>Get\<close> gives the answer it is set up with, and a file system:
  every directory holds the files \<open>dir\<close> (name and content), a manifest that contains
  \<open>!!\<close> fails to decode, and a decoded object is the text of its manifest.
\<close>

definition ex_Get :: "error + unit \<Rightarrow> unit \<Rightarrow> unit \<Rightarrow> nat \<Rightarrow> error + unit" where
  "ex_Get answer r req w = answer"

definition ex_files :: "(string \<times> string) list \<Rightarrow> string files" where
  "ex_files dir =
     \<lparr>Walk = (\<lambda>root. ((root, Some True) # map (\<lambda>(name, content). (name, Some False)) dir, None)),
      ReadFile = (\<lambda>path. case map_of dir path of
                            Some content \<Rightarrow> Inr content
                          | None \<Rightarrow> Inl (ErrorString ''no such file'')),
      Decode = (\<lambda>c m obj. if sublist ''!!'' m then Inl (ErrorString ''cannot decode'') else Inr m),
      ZeroResources = \<lparr>res_Namespace = [], res_ServiceAccount = [], res_Role = [],
        res_RoleBinding = [], res_ClusterRole = [], res_ClusterRoleBinding = [],
        res_ConfigMap = [], res_DaemonSet = [], res_Pod = [], res_Service = [],
        res_SecurityContextConstraints = []\<rparr>\<rparr>"

text \<open>
  How the loop of \<open>addResourcesControls\<close> treats a manifest: the control function its
  \<open>switch\<close> case appends, if it has a case; the kind the \<open>default\<close> case logs.
\<close>

definition manifest_control :: "string \<Rightarrow> control option" where
  "manifest_control m =
     (case manifest_kind m of Panicked p \<Rightarrow> None | Returned kind \<Rightarrow> switch_kind kind)"

definition manifest_label :: "string \<Rightarrow> string" where
  "manifest_label m = (case manifest_kind m of Panicked p \<Rightarrow> [] | Returned kind \<Rightarrow> kind)"

definition unrecognized :: "string \<Rightarrow> bool" where
  "unrecognized m =
     (case manifest_kind m of Panicked p \<Rightarrow> False | Returned kind \<Rightarrow> switch_kind kind = None)"

text \<open>
  The kind label as the specification describes it, to compare with \<open>manifest_kind\<close>:
  the type-metadata field at the root of the document, first occurrence, not inside a
  nested field and not inside a comment. In a block-style document a field at the root
  starts in the first column of its line; a nested field is indented and a comment
  starts with \<open>#\<close>.
\<close>

definition root_kind_spec :: "string \<Rightarrow> string option" where
  "root_kind_spec m =
     (case filter (prefix ''kind:'') (Split m CHR 0x0A) of
        [] \<Rightarrow> None
      | l # ls \<Rightarrow> Some (TrimSpace (drop 5 l)))"

text \<open>
  \<open>k\<close> calls of \<open>step\<close> in a row that all return no error: the stepper and the
  cluster after them, and the control function calls they made.
\<close>

fun ready_steps :: "('r, 'i, 'o, 'w) control_sem \<Rightarrow> nat \<Rightarrow> ('r, 'i, 'o) NFD \<Rightarrow> 'w
    \<Rightarrow> (('r, 'i, 'o) NFD \<times> 'w \<times> call list) option" where
  "ready_steps sem 0 n w = Some (n, w, [])"
| "ready_steps sem (Suc k) n w =
     (case step sem n w of
        Returned (None, n1, w1, calls) \<Rightarrow>
          (case ready_steps sem k n1 w1 of
             Some (n2, w2, calls2) \<Rightarrow> Some (n2, w2, calls @ calls2)
           | None \<Rightarrow> None)
      | _ \<Rightarrow> None)"

text \<open>
  The same file system with a serializer that, like a JSON decoder writing into a
  struct that is already filled, keeps what its target holds: the object after the
  call is the old content of the target followed by the text of the manifest.
\<close>

definition ex_merging :: "(string \<times> string) list \<Rightarrow> string files" where
  "ex_merging dir = (ex_files dir)\<lparr>Decode := (\<lambda>c m obj. Inr (obj @ m))\<rparr>"

text \<open>
  The meaning of a pattern, stated without a search: \<open>amatch re prev c rest\<close> holds when
  the text \<open>c\<close>, standing after the byte \<open>prev\<close> and before the text \<open>rest\<close>, is what
  the atoms \<open>re\<close> match one after the other. A literal matches its byte, a star any
  number of bytes of its class, and the two assertions match no text and look at the
  bytes around their position. \<open>lastc prev c\<close> is the byte before the position reached
  after \<open>c\<close>.
\<close>

definition lastc :: "char option \<Rightarrow> string \<Rightarrow> char option" where
  "lastc prev c = (if c = [] then prev else Some (last c))"

fun amatch :: "atom list \<Rightarrow> char option \<Rightarrow> string \<Rightarrow> string \<Rightarrow> bool" where
  "amatch [] prev c rest = (c = [])"
| "amatch (WordBoundary # re) prev c rest =
     (at_word_boundary prev (c @ rest) \<and> amatch re prev c rest)"
| "amatch (NoWordBoundary # re) prev c rest =
     (\<not> at_word_boundary prev (c @ rest) \<and> amatch re prev c rest)"
| "amatch (Literal x # re) prev c rest =
     (case c of [] \<Rightarrow> False | y # c' \<Rightarrow> y = x \<and> amatch re (Some x) c' rest)"
| "amatch (Star k # re) prev c rest =
     (\<exists>n\<in>{..length c}. (\<forall>x\<in>set (take n c). in_class k x) \<and>
        amatch re (lastc prev (take n c)) (drop n c) rest)"

text \<open>
  The label the code reads off a match: the text between the first colon of the match
  and its next colon, or its end, without the white space around it.
\<close>

definition label_of :: "string \<Rightarrow> string" where
  "label_of mt =
     TrimSpace (takeWhile (\<lambda>c. c \<noteq> CHR '':'') (tl (dropWhile (\<lambda>c. c \<noteq> CHR '':'') mt)))"

text \<open>The bytes an atom can match.\<close>

fun consumes :: "atom \<Rightarrow> char \<Rightarrow> bool" where
  "consumes (Literal y) x = (x = y)"
| "consumes (Star k) x = in_class k x"
| "consumes WordBoundary x = False"
| "consumes NoWordBoundary x = False"

section \<open>The stepper: order of calls, short circuit, cursor\<close>

lemma cluster_after_simps [simp]:
  "cluster_after sem n w [] = w"
  "cluster_after sem n w (f # fs) = cluster_after sem n (snd (sem f n w)) fs"
  by (simp_all add: cluster_after_def)

lemma step_loop_Cons_cases:
  assumes "step_loop sem (f # fs) n w = (r, w', calls)"
  obtains (halt) stat e where "sem f n w = ((stat, e), w')" and "(stat, e) \<noteq> (Ready, None)"
      and "calls = [(f, stat, e)]"
      and "r = Some (case e of Some e' \<Rightarrow> e' | None \<Rightarrow> errors_New ''ResourceNotReady'')"
  | (continue) w1 calls2 where "sem f n w = ((Ready, None), w1)"
      and "step_loop sem fs n w1 = (r, w', calls2)" and "calls = (f, Ready, None) # calls2"
proof -
  obtain stat e w1 where s: "sem f n w = ((stat, e), w1)"
    by (metis prod.exhaust)
  show thesis
  proof (cases e)
    case (Some e')
    with assms s have "w' = w1 \<and> calls = [(f, stat, e)] \<and> r = Some e'"
      by auto
    with s Some halt [of stat e] show thesis by simp
  next
    case None
    show thesis
    proof (cases "stat = Ready")
      case True
      obtain r2 w2 calls2 where l: "step_loop sem fs n w1 = (r2, w2, calls2)"
        by (metis prod.exhaust)
      from assms s True None l have "r = r2 \<and> w' = w2 \<and> calls = (f, Ready, None) # calls2"
        by auto
      with s True None l continue [of w1 calls2] show thesis by simp
    next
      case False
      with assms s None
      have "w' = w1 \<and> calls = [(f, stat, e)] \<and> r = Some (errors_New ''ResourceNotReady'')"
        by auto
      with s None False halt [of stat e] show thesis by simp
    qed
  qed
qed

lemma step_loop_prefix:
  "step_loop sem fs n w = (r, w', calls) \<Longrightarrow> prefix (map fst calls) fs"
proof (induction fs arbitrary: w calls)
  case Nil
  then show ?case by simp
next
  case (Cons f fs)
  from Cons.prems show ?case
  proof (cases rule: step_loop_Cons_cases)
    case (halt stat e)
    then show ?thesis by simp
  next
    case (continue w1 calls2)
    with Cons.IH [of w1 calls2] show ?thesis by simp
  qed
qed

lemma step_loop_cluster:
  "step_loop sem fs n w = (r, w', calls) \<Longrightarrow> w' = cluster_after sem n w (map fst calls)"
proof (induction fs arbitrary: w calls)
  case Nil
  then show ?case by simp
next
  case (Cons f fs)
  from Cons.prems show ?case
  proof (cases rule: step_loop_Cons_cases)
    case (halt stat e)
    then show ?thesis by simp
  next
    case (continue w1 calls2)
    with Cons.IH [of w1 calls2] show ?thesis by simp
  qed
qed

lemma step_loop_reports:
  "step_loop sem fs n w = (r, w', calls) \<Longrightarrow> i < length calls \<Longrightarrow>
     snd (calls ! i) = fst (sem (fs ! i) n (cluster_after sem n w (take i fs)))"
proof (induction fs arbitrary: w calls i)
  case Nil
  then show ?case by simp
next
  case (Cons f fs)
  from Cons.prems(1) show ?case
  proof (cases rule: step_loop_Cons_cases)
    case (halt stat e)
    with Cons.prems(2) show ?thesis by simp
  next
    case (continue w1 calls2)
    show ?thesis
    proof (cases i)
      case 0
      with continue show ?thesis by simp
    next
      case (Suc j)
      with continue Cons.prems(2) Cons.IH [of w1 calls2 j] show ?thesis by simp
    qed
  qed
qed

lemma step_loop_butlast:
  "step_loop sem fs n w = (r, w', calls) \<Longrightarrow> c \<in> set (butlast calls) \<Longrightarrow> ready_call c"
proof (induction fs arbitrary: w calls)
  case Nil
  then show ?case by simp
next
  case (Cons f fs)
  from Cons.prems(1) show ?case
  proof (cases rule: step_loop_Cons_cases)
    case (halt stat e)
    with Cons.prems(2) show ?thesis by simp
  next
    case (continue w1 calls2)
    with Cons.prems(2) Cons.IH [of w1 calls2] show ?thesis
      by (auto simp: ready_call_def split: if_splits)
  qed
qed

lemma step_loop_None:
  "step_loop sem fs n w = (None, w', calls) \<Longrightarrow>
     map fst calls = fs \<and> (\<forall>c \<in> set calls. ready_call c)"
proof (induction fs arbitrary: w calls)
  case Nil
  then show ?case by simp
next
  case (Cons f fs)
  from Cons.prems(1) show ?case
  proof (cases rule: step_loop_Cons_cases)
    case (halt stat e)
    then show ?thesis by simp
  next
    case (continue w1 calls2)
    with Cons.IH [of w1 calls2] show ?thesis
      by (simp add: ready_call_def)
  qed
qed

lemma step_loop_Some:
  "step_loop sem fs n w = (Some e, w', calls) \<Longrightarrow>
     calls \<noteq> [] \<and> \<not> ready_call (last calls) \<and>
     e = (case snd (snd (last calls)) of Some e' \<Rightarrow> e' | None \<Rightarrow> errors_New ''ResourceNotReady'')"
proof (induction fs arbitrary: w calls)
  case Nil
  then show ?case by simp
next
  case (Cons f fs)
  from Cons.prems(1) show ?case
  proof (cases rule: step_loop_Cons_cases)
    case (halt stat e0)
    then show ?thesis by (simp add: ready_call_def)
  next
    case (continue w1 calls2)
    with Cons.IH [of w1 calls2] show ?thesis by simp
  qed
qed


lemma step_in_range:
  assumes "0 \<le> idx n" and "idx n < int (length (controls n))"
    and "step_loop sem (controls n ! nat (idx n)) n w = (r, w', calls)"
  shows "step sem n w = Returned (r, if r = None then n\<lparr>idx := idx n + 1\<rparr> else n, w', calls)"
  using assms by (cases r) (simp_all add: step_def)

lemma step_ReturnedD:
  assumes "step sem n w = Returned (r, n', w', calls)"
  shows "step_loop sem (controls n ! nat (idx n)) n w = (r, w', calls)"
  using assms by (auto simp: step_def split: if_splits prod.splits option.splits)

text \<open>
  C1. When the cursor points at a stage, \<open>step\<close> returns, and the control functions
  it invoked are an initial segment of the stage, in list order. Every entry of the
  call list is what that function reported in the cluster its predecessors left, and
  the cluster afterwards is the one the invoked functions left: no later function of
  the stage ran. Every call but the last reported ready. If all calls reported ready,
  the whole stage ran and \<open>step\<close> returns no error; otherwise the last call is the
  first that reported a non-ready status or an error, and \<open>step\<close> returns an error.
\<close>

theorem step_short_circuit:
  assumes "0 \<le> idx n" and "idx n < int (length (controls n))"
  shows "\<exists>r n' w' calls.
     step sem n w = Returned (r, n', w', calls) \<and>
     prefix (map fst calls) (controls n ! nat (idx n)) \<and>
     (\<forall>i<length calls. snd (calls ! i) =
        fst (sem (controls n ! nat (idx n) ! i) n
              (cluster_after sem n w (take i (controls n ! nat (idx n)))))) \<and>
     w' = cluster_after sem n w (map fst calls) \<and>
     (\<forall>c\<in>set (butlast calls). ready_call c) \<and>
     (if \<forall>c\<in>set calls. ready_call c
      then r = None \<and> map fst calls = controls n ! nat (idx n)
      else r \<noteq> None \<and> \<not> ready_call (last calls))"
proof -
  let ?stage = "controls n ! nat (idx n)"
  obtain r w' calls where l: "step_loop sem ?stage n w = (r, w', calls)"
    by (metis prod.exhaust)
  have s: "step sem n w = Returned (r, if r = None then n\<lparr>idx := idx n + 1\<rparr> else n, w', calls)"
    by (rule step_in_range [OF assms l])
  have p: "prefix (map fst calls) ?stage" by (rule step_loop_prefix [OF l])
  have q: "\<forall>i<length calls. snd (calls ! i) =
      fst (sem (?stage ! i) n (cluster_after sem n w (take i ?stage)))"
    using step_loop_reports [OF l] by blast
  have c: "w' = cluster_after sem n w (map fst calls)" by (rule step_loop_cluster [OF l])
  have b: "\<forall>c\<in>set (butlast calls). ready_call c"
    using step_loop_butlast [OF l] by blast
  have e: "if \<forall>c\<in>set calls. ready_call c
      then r = None \<and> map fst calls = ?stage
      else r \<noteq> None \<and> \<not> ready_call (last calls)"
  proof (cases r)
    case None
    with step_loop_None [of sem ?stage n w w' calls] l show ?thesis by simp
  next
    case (Some e)
    with step_loop_Some [of sem ?stage n w e w' calls] l
    have "calls \<noteq> []" and "\<not> ready_call (last calls)" by simp_all
    moreover from this have "\<not> (\<forall>c\<in>set calls. ready_call c)"
      using last_in_set by blast
    ultimately show ?thesis using Some by simp
  qed
  from s p q c b e show ?thesis by blast
qed

theorem step_short_circuit_witness:
  "0 \<le> idx (ex_nfd [[Namespace, ConfigMap, Service]] 0) \<and>
   idx (ex_nfd [[Namespace, ConfigMap, Service]] 0)
     < int (length (controls (ex_nfd [[Namespace, ConfigMap, Service]] 0))) \<and>
   (\<exists>r n' w' calls.
     step ex_sem (ex_nfd [[Namespace, ConfigMap, Service]] 0) 0 = Returned (r, n', w', calls) \<and>
     calls = [(Namespace, Ready, None), (ConfigMap, NotReady, None)] \<and>
     r = Some (ErrorString ''ResourceNotReady'') \<and> w' = 2 \<and>
     prefix (map fst calls) [Namespace, ConfigMap, Service] \<and>
     (\<forall>c\<in>set (butlast calls). ready_call c) \<and> \<not> ready_call (last calls))"
proof -
  let ?n = "ex_nfd [[Namespace, ConfigMap, Service]] 0"
  have h1: "0 \<le> idx ?n" and h2: "idx ?n < int (length (controls ?n))"
    by (simp_all add: ex_nfd_def)
  have v: "step ex_sem ?n 0 = Returned (Some (ErrorString ''ResourceNotReady''), ?n, 2,
      [(Namespace, Ready, None), (ConfigMap, NotReady, None)])"
    by (simp add: step_def ex_nfd_def ex_sem_def errors_New_def)
  from step_short_circuit [OF h1 h2, of ex_sem 0] v h1 h2 show ?thesis
    by (simp add: ex_nfd_def ready_call_def)
qed

lemma step_seq_idx:
  "step_seq sem k n w = Returned (rs, n', w') \<Longrightarrow>
     length rs = k \<and> controls n' = controls n \<and>
     idx n' = idx n + int (length (filter (\<lambda>r. r = None) rs))"
proof (induction k arbitrary: n w rs)
  case 0
  then show ?case by simp
next
  case (Suc k)
  from Suc.prems obtain r n1 w1 calls rs1 where
    s: "step sem n w = Returned (r, n1, w1, calls)" and
    t: "step_seq sem k n1 w1 = Returned (rs1, n', w')" and rs: "rs = r # rs1"
    by (auto split: outcome.splits prod.splits)
  from step_Returned_idx [OF s] Suc.IH [OF t] rs show ?case by simp
qed

text \<open>
  C2. A call of \<open>step\<close> that returns leaves the cursor one higher when every control
  function of the current stage ran and reported ready, which is exactly when it returns
  no error, and leaves it unchanged when it returns an error. Over any number of calls
  in a row the cursor has grown by the number of calls that returned no error, so it
  never decreases. \<open>last\<close> holds exactly when the cursor equals the number of stages.
\<close>

theorem cursor_progress:
  "(step sem n w = Returned (r, n', w', calls) \<longrightarrow>
      (r = None \<longleftrightarrow>
         map fst calls = controls n ! nat (idx n) \<and> (\<forall>c\<in>set calls. ready_call c)) \<and>
      idx n' = (if r = None then idx n + 1 else idx n) \<and> idx n \<le> idx n') \<and>
   (step_seq sem k n w = Returned (rs, n'', w'') \<longrightarrow>
      idx n'' = idx n + int (length (filter (\<lambda>r. r = None) rs)) \<and> idx n \<le> idx n'') \<and>
   (last_stage n \<longleftrightarrow> idx n = int (length (controls n)))"
proof (intro conjI impI)
  assume s: "step sem n w = Returned (r, n', w', calls)"
  have l: "step_loop sem (controls n ! nat (idx n)) n w = (r, w', calls)"
    by (rule step_ReturnedD [OF s])
  show "r = None \<longleftrightarrow>
      map fst calls = controls n ! nat (idx n) \<and> (\<forall>c\<in>set calls. ready_call c)"
  proof
    assume "r = None"
    with l step_loop_None [of sem "controls n ! nat (idx n)" n w w' calls]
    show "map fst calls = controls n ! nat (idx n) \<and> (\<forall>c\<in>set calls. ready_call c)"
      by simp
  next
    assume a: "map fst calls = controls n ! nat (idx n) \<and> (\<forall>c\<in>set calls. ready_call c)"
    show "r = None"
    proof (cases r)
      case None
      then show ?thesis .
    next
      case (Some e)
      with l step_loop_Some [of sem "controls n ! nat (idx n)" n w e w' calls]
      have "calls \<noteq> []" and "\<not> ready_call (last calls)" by simp_all
      with a show ?thesis using last_in_set by blast
    qed
  qed
  from step_Returned_idx(4) [OF s]
  show "idx n' = (if r = None then idx n + 1 else idx n)" .
  then show "idx n \<le> idx n'" by simp
next
  assume t: "step_seq sem k n w = Returned (rs, n'', w'')"
  from step_seq_idx [OF t]
  show "idx n'' = idx n + int (length (filter (\<lambda>r. r = None) rs))" by simp
  then show "idx n \<le> idx n''" by simp
next
  show "last_stage n \<longleftrightarrow> idx n = int (length (controls n))"
    by (simp add: last_stage_def)
qed

theorem cursor_progress_witness:
  "step ex_sem (ex_nfd [[Namespace], [ConfigMap]] 0) 0
     = Returned (None, ex_nfd [[Namespace], [ConfigMap]] 1, 1, [(Namespace, Ready, None)]) \<and>
   step_seq ex_sem (Suc (Suc (Suc 0))) (ex_nfd [[Namespace], [ConfigMap]] 0) 0
     = Returned ([None, Some (ErrorString ''ResourceNotReady''),
                  Some (ErrorString ''ResourceNotReady'')],
                 ex_nfd [[Namespace], [ConfigMap]] 1, 3) \<and>
   idx (ex_nfd [[Namespace], [ConfigMap]] 1) = idx (ex_nfd [[Namespace], [ConfigMap]] 0) + 1 \<and>
   \<not> last_stage (ex_nfd [[Namespace], [ConfigMap]] 1) \<and>
   last_stage (ex_nfd [[Namespace], [ConfigMap]] 2)"
proof -
  let ?n = "ex_nfd [[Namespace], [ConfigMap]]"
  have a: "step ex_sem (?n 0) 0 = Returned (None, ?n 1, 1, [(Namespace, Ready, None)])"
    by (simp add: step_def ex_nfd_def ex_sem_def)
  have b: "step ex_sem (?n 1) w
      = Returned (Some (ErrorString ''ResourceNotReady''), ?n 1, Suc w, [(ConfigMap, NotReady, None)])"
    for w
    by (simp add: step_def ex_nfd_def ex_sem_def errors_New_def)
  have c: "step_seq ex_sem (Suc (Suc (Suc 0))) (?n 0) 0
      = Returned ([None, Some (ErrorString ''ResourceNotReady''),
                   Some (ErrorString ''ResourceNotReady'')], ?n 1, 3)"
    by (simp add: a b)
  from cursor_progress [of ex_sem "?n 0" 0 None "?n 1" 1 "[(Namespace, Ready, None)]"
      "Suc (Suc (Suc 0))" "[None, Some (ErrorString ''ResourceNotReady''),
                   Some (ErrorString ''ResourceNotReady'')]" "?n 1" 3]
    cursor_progress [of ex_sem "?n 1" 0 None "?n 1" 1 "[]" 0 "[]" "?n 1" 3]
    cursor_progress [of ex_sem "?n 2" 0 None "?n 1" 1 "[]" 0 "[]" "?n 1" 3]
    a c
  show ?thesis by (simp add: ex_nfd_def)
qed

section \<open>Reconcile: what the caller receives\<close>

lemma step_loop_append:
  "step_loop sem pre n w = (None, w1, calls1) \<Longrightarrow>
     step_loop sem (pre @ rest) n w =
       (case step_loop sem rest n w1 of (r, w', calls) \<Rightarrow> (r, w', calls1 @ calls))"
proof (induction pre arbitrary: w calls1)
  case Nil
  then show ?case by simp
next
  case (Cons f pre)
  from Cons.prems show ?case
  proof (cases rule: step_loop_Cons_cases)
    case (halt stat e)
    then show ?thesis by simp
  next
    case (continue wa calls2)
    with Cons.IH [of wa calls2] show ?thesis
      by (simp split: prod.splits)
  qed
qed

lemma step_loop_halt:
  assumes "step_loop sem pre n w = (None, w1, calls1)"
    and "sem f n w1 = ((NotReady, e), w2)"
  shows "step_loop sem (pre @ f # post) n w
      = (Some (halt_error e), w2, calls1 @ [(f, NotReady, e)])"
proof -
  have "step_loop sem (f # post) n w1 = (Some (halt_error e), w2, [(f, NotReady, e)])"
    using assms(2) by (cases e) (simp_all add: halt_error_def)
  with step_loop_append [OF assms(1), of "f # post"] show ?thesis by simp
qed

lemma reconcile_loop_error:
  assumes "step sem n w = Returned (Some e, n', w', calls)"
  shows "reconcile_loop sem n w = Returned (Some e, n', w', calls)"
  using assms by (subst reconcile_loop.simps) simp

lemma init_binds:
  assumes "init env r i n0 = Returned (n, logged)"
  shows "idx n = 0" and "rec n = Some r" and "ins n = Some i"
  using assms
  by (auto simp: init_def addState_def Let_def split: if_splits outcome.splits prod.splits)


lemma ready_steps_SucD:
  assumes "ready_steps sem (Suc k) n w = Some (n', w', calls)"
  obtains n1 w1 calls1 calls2 where "step sem n w = Returned (None, n1, w1, calls1)"
    and "ready_steps sem k n1 w1 = Some (n', w', calls2)" and "calls = calls1 @ calls2"
proof (cases "step sem n w")
  case (Panicked p)
  with assms show thesis by simp
next
  case (Returned x)
  obtain r n1 w1 calls1 where x: "x = (r, n1, w1, calls1)" by (cases x) auto
  show thesis
  proof (cases r)
    case (Some e)
    with assms Returned x show thesis by simp
  next
    case None
    show thesis
    proof (cases "ready_steps sem k n1 w1")
      case a: None
      with assms Returned x None show thesis by simp
    next
      case (Some y)
      obtain n2 w2 calls2 where y: "y = (n2, w2, calls2)" by (cases y) auto
      from assms Returned x None Some y
      have "n' = n2" "w' = w2" "calls = calls1 @ calls2" by simp_all
      with that [of n1 w1 calls1 calls2] Returned x None Some y show thesis by simp
    qed
  qed
qed

lemma ready_steps_idx:
  "ready_steps sem k n0 w0 = Some (n, w, calls) \<Longrightarrow>
     idx n = idx n0 + int k \<and> controls n = controls n0"
proof (induction k arbitrary: n0 w0 calls)
  case 0
  then show ?case by simp
next
  case (Suc k)
  from Suc.prems obtain n1 w1 calls1 calls2 where
    s: "step sem n0 w0 = Returned (None, n1, w1, calls1)"
    and t: "ready_steps sem k n1 w1 = Some (n, w, calls2)"
    by (rule ready_steps_SucD)
  from step_Returned_idx [OF s] Suc.IH [OF t] show ?case by simp
qed

lemma reconcile_loop_ready_steps:
  "ready_steps sem k n0 w0 = Some (n, w, calls0) \<Longrightarrow> idx n < int (length (controls n)) \<Longrightarrow>
     reconcile_loop sem n0 w0 =
       (case reconcile_loop sem n w of
          Panicked p \<Rightarrow> Panicked p
        | Returned (e, n', w', calls) \<Rightarrow> Returned (e, n', w', calls0 @ calls))"
proof (induction k arbitrary: n0 w0 calls0)
  case 0
  then show ?case by (simp split: outcome.splits)
next
  case (Suc k)
  from Suc.prems(1) obtain n1 w1 calls1 calls2 where
    s: "step sem n0 w0 = Returned (None, n1, w1, calls1)"
    and t: "ready_steps sem k n1 w1 = Some (n, w, calls2)"
    and c: "calls0 = calls1 @ calls2"
    by (rule ready_steps_SucD)
  from ready_steps_idx [OF t] Suc.prems(2) have "\<not> last_stage n1"
    by (simp add: last_stage_def)
  with s have "reconcile_loop sem n0 w0 =
      (case reconcile_loop sem n1 w1 of
         Panicked p \<Rightarrow> Panicked p
       | Returned (e, n', w', calls) \<Rightarrow> Returned (e, n', w', calls1 @ calls))"
    by (subst reconcile_loop.simps) simp
  also from Suc.IH [OF t Suc.prems(2)]
  have "\<dots> = (case reconcile_loop sem n w of
          Panicked p \<Rightarrow> Panicked p
        | Returned (e, n', w', calls) \<Rightarrow> Returned (e, n', w', calls0 @ calls))"
    by (simp add: c split: outcome.splits)
  finally show ?case .
qed

text \<open>
  C3 (amended). Let \<open>Reconcile\<close> have fetched the instance and initialised the stepper,
  let \<open>k\<close> stages in a row have reported ready, and let, in the stage the cursor is
  then at, the functions \<open>pre\<close> report ready and the next one, \<open>f\<close>, report
  \<open>NotReady\<close>. Then this call of \<open>step\<close> returns an error and leaves the stepper as it
  was, the cursor at \<open>k\<close>; and \<open>Reconcile\<close> returns the zero \<open>Result\<close>, whose
  \<open>Requeue\<close> is false, together with that error, after exactly the calls made so far.
  The error is the one \<open>f\<close> returned, if any, and otherwise the plain error with the
  message \<open>ResourceNotReady\<close>, which differs from every error with another message.
\<close>

theorem not_ready_reconcile:
  assumes "ready_steps sem k n0 w0 = Some (n, w, calls0)"
    and "idx n < int (length (controls n))"
    and "controls n ! nat (idx n) = pre @ f # post"
    and "step_loop sem pre n w = (None, w1, calls1)"
    and "sem f n w1 = ((NotReady, e), w2)"
    and "Get r req w0 = Inr inst"
    and "init env r inst m = Returned (n0, logged)"
  shows "idx n = int k \<and>
     step sem n w = Returned (Some (halt_error e), n, w2, calls1 @ [(f, NotReady, e)]) \<and>
     Reconcile Get env sem r req m w0 =
       Returned \<lparr>result = \<lparr>Requeue = False, RequeueAfter = 0\<rparr>, err = Some (halt_error e),
         nfd = n, cluster = w2, invoked = calls0 @ calls1 @ [(f, NotReady, e)],
         unknown_logged = logged\<rparr> \<and>
     halt_error None = ErrorString ''ResourceNotReady'' \<and>
     (\<forall>msg. msg \<noteq> ''ResourceNotReady'' \<longrightarrow> halt_error (Some (ErrorString msg)) \<noteq> halt_error None) \<and>
     (\<forall>reason msg. halt_error (Some (StatusError reason msg)) \<noteq> halt_error None)"
proof -
  from ready_steps_idx [OF assms(1)] init_binds(1) [OF assms(7)]
  have i: "idx n = int k" by simp
  then have i0: "0 \<le> idx n" by simp
  have l: "step_loop sem (controls n ! nat (idx n)) n w
      = (Some (halt_error e), w2, calls1 @ [(f, NotReady, e)])"
    using step_loop_halt [OF assms(4) assms(5)] assms(3) by simp
  have s: "step sem n w = Returned (Some (halt_error e), n, w2, calls1 @ [(f, NotReady, e)])"
    using step_in_range [OF i0 assms(2) l] by simp
  have "reconcile_loop sem n w
      = Returned (Some (halt_error e), n, w2, calls1 @ [(f, NotReady, e)])"
    by (rule reconcile_loop_error [OF s])
  with reconcile_loop_ready_steps [OF assms(1) assms(2)]
  have "reconcile_loop sem n0 w0
      = Returned (Some (halt_error e), n, w2, calls0 @ calls1 @ [(f, NotReady, e)])"
    by simp
  with assms(6) assms(7)
  have r: "Reconcile Get env sem r req m w0 =
       Returned \<lparr>result = \<lparr>Requeue = False, RequeueAfter = 0\<rparr>, err = Some (halt_error e),
         nfd = n, cluster = w2, invoked = calls0 @ calls1 @ [(f, NotReady, e)],
         unknown_logged = logged\<rparr>"
    by (simp add: Reconcile_def Result_zero_def)
  have "halt_error None = ErrorString ''ResourceNotReady''"
    by (simp add: halt_error_def errors_New_def)
  moreover have "\<forall>msg. msg \<noteq> ''ResourceNotReady'' \<longrightarrow>
      halt_error (Some (ErrorString msg)) \<noteq> halt_error None"
    by (simp add: halt_error_def errors_New_def)
  moreover have "\<forall>reason msg. halt_error (Some (StatusError reason msg)) \<noteq> halt_error None"
    by (simp add: halt_error_def errors_New_def)
  ultimately show ?thesis using i s r by blast
qed

theorem not_ready_reconcile_witness:
  "Reconcile (ex_Get (Inr ())) (ex_files []) ex_sem () ()
      (ex_nfd [[Namespace, Role], [Service, ConfigMap, Namespace]] 2) 0 =
     Returned \<lparr>result = \<lparr>Requeue = False, RequeueAfter = 0\<rparr>,
       err = Some (ErrorString ''ResourceNotReady''),
       nfd = \<lparr>resources = [], controls = [[Namespace, Role], [Service, ConfigMap, Namespace]],
               rec = Some (), ins = Some (), idx = 1\<rparr>,
       cluster = 4,
       invoked = [(Namespace, Ready, None), (Role, Ready, None), (Service, Ready, None),
                  (ConfigMap, NotReady, None)],
       unknown_logged = []\<rparr>"
proof -
  let ?cs = "[[Namespace, Role], [Service, ConfigMap, Namespace]]"
  let ?first = "\<lparr>resources = [], controls = ?cs,
      rec = Some (), ins = Some (), idx = 0\<rparr> :: (unit, unit, string) NFD"
  let ?n = "\<lparr>resources = [], controls = ?cs,
      rec = Some (), ins = Some (), idx = 1\<rparr> :: (unit, unit, string) NFD"
  have s: "step ex_sem ?first 0
      = Returned (None, ?n, 2, [(Namespace, Ready, None), (Role, Ready, None)])"
    by (simp add: step_def ex_sem_def)
  have h1: "ready_steps ex_sem (Suc 0) ?first 0
      = Some (?n, 2, [(Namespace, Ready, None), (Role, Ready, None)])"
    by (simp add: s)
  have h2: "idx ?n < int (length (controls ?n))" by simp
  have h3: "controls ?n ! nat (idx ?n) = [Service] @ ConfigMap # [Namespace]" by simp
  have h4: "step_loop ex_sem [Service] ?n 2 = (None, 3, [(Service, Ready, None)])"
    by (simp add: ex_sem_def)
  have h5: "ex_sem ConfigMap ?n 3 = ((NotReady, None), 4)"
    by (simp add: ex_sem_def)
  have h6: "ex_Get (Inr ()) () () 0 = Inr ()" by (simp add: ex_Get_def)
  have h7: "init (ex_files []) () () (ex_nfd ?cs 2) = Returned (?first, [])"
    by (simp add: init_def ex_nfd_def)
  from not_ready_reconcile [where Get = "ex_Get (Inr ())" and r = "()" and req = "()"
      and inst = "()" and env = "ex_files []" and m = "ex_nfd ?cs 2" and logged = "[]",
      OF h1 h2 h3 h4 h5 h6 h7]
  show ?thesis by (simp add: halt_error_def errors_New_def)
qed

theorem not_ready_requeue_counterexample:
  "Reconcile (ex_Get (Inr ())) (ex_files []) ex_sem () () (ex_nfd [[ConfigMap]] 0) 0 =
     Returned \<lparr>result = \<lparr>Requeue = False, RequeueAfter = 0\<rparr>,
       err = Some (ErrorString ''ResourceNotReady''),
       nfd = \<lparr>resources = [], controls = [[ConfigMap]], rec = Some (), ins = Some (), idx = 0\<rparr>,
       cluster = 1, invoked = [(ConfigMap, NotReady, None)], unknown_logged = []\<rparr> \<and>
   Reconcile (ex_Get (Inr ())) (ex_files []) ex_sem () () (ex_nfd [[DaemonSet]] 0) 0 =
     Returned \<lparr>result = \<lparr>Requeue = False, RequeueAfter = 0\<rparr>,
       err = Some (ErrorString ''ResourceNotReady''),
       nfd = \<lparr>resources = [], controls = [[DaemonSet]], rec = Some (), ins = Some (), idx = 0\<rparr>,
       cluster = 1,
       invoked = [(DaemonSet, NotReady, Some (ErrorString ''ResourceNotReady''))],
       unknown_logged = []\<rparr>"
proof -
  have a: "step ex_sem \<lparr>resources = [], controls = [[ConfigMap]], rec = Some (), ins = Some (),
        idx = 0\<rparr> 0
      = Returned (Some (ErrorString ''ResourceNotReady''),
          \<lparr>resources = [], controls = [[ConfigMap]], rec = Some (), ins = Some (), idx = 0\<rparr>,
          1, [(ConfigMap, NotReady, None)])"
    by (simp add: step_def ex_sem_def errors_New_def)
  have b: "step ex_sem \<lparr>resources = [], controls = [[DaemonSet]], rec = Some (), ins = Some (),
        idx = 0\<rparr> 0
      = Returned (Some (ErrorString ''ResourceNotReady''),
          \<lparr>resources = [], controls = [[DaemonSet]], rec = Some (), ins = Some (), idx = 0\<rparr>,
          1, [(DaemonSet, NotReady, Some (ErrorString ''ResourceNotReady''))])"
    by (simp add: step_def ex_sem_def errors_New_def)
  show ?thesis
    by (simp add: Reconcile_def ex_Get_def init_def ex_nfd_def Result_zero_def
        reconcile_loop_error [OF a] reconcile_loop_error [OF b])
qed

text \<open>
  C7. When the fetch of the instance fails, \<open>Reconcile\<close> returns at once, whatever
  the file system, the control functions and the stepper are: the stepper and the
  cluster are returned as they were and no control function is called, so neither
  \<open>init\<close> nor \<open>step\<close> ran. For a not-found error the result is \<open>Requeue = false\<close> with a
  nil error; for any other error it is \<open>Requeue = true\<close> with that error.
\<close>

theorem fetch_failure:
  assumes "Get r req w = Inl e"
  shows "Reconcile Get env sem r req n w =
     Returned \<lparr>result = \<lparr>Requeue = \<not> IsNotFound e, RequeueAfter = 0\<rparr>,
       err = (if IsNotFound e then None else Some e),
       nfd = n, cluster = w, invoked = [], unknown_logged = []\<rparr>"
  using assms by (simp add: Reconcile_def)

theorem fetch_failure_witness:
  "Reconcile (ex_Get (Inl (StatusError ''NotFound'' ''nfd-instance not found''))) (ex_files [])
      ex_sem () () (ex_nfd [[ConfigMap]] 7) 0 =
     Returned \<lparr>result = \<lparr>Requeue = False, RequeueAfter = 0\<rparr>, err = None,
       nfd = ex_nfd [[ConfigMap]] 7, cluster = 0, invoked = [], unknown_logged = []\<rparr> \<and>
   Reconcile (ex_Get (Inl (ErrorString ''context deadline exceeded''))) (ex_files [])
      ex_sem () () (ex_nfd [[ConfigMap]] 7) 0 =
     Returned \<lparr>result = \<lparr>Requeue = True, RequeueAfter = 0\<rparr>,
       err = Some (ErrorString ''context deadline exceeded''),
       nfd = ex_nfd [[ConfigMap]] 7, cluster = 0, invoked = [], unknown_logged = []\<rparr>"
proof -
  have a: "ex_Get (Inl (StatusError ''NotFound'' ''nfd-instance not found'')) () () 0
      = Inl (StatusError ''NotFound'' ''nfd-instance not found'')"
    and b: "ex_Get (Inl (ErrorString ''context deadline exceeded'')) () () 0
      = Inl (ErrorString ''context deadline exceeded'')"
    by (simp_all add: ex_Get_def)
  from fetch_failure [where Get = "ex_Get (Inl (StatusError ''NotFound'' ''nfd-instance not found''))"
        and r = "()" and req = "()" and w = 0 and env = "ex_files []" and sem = ex_sem
        and n = "ex_nfd [[ConfigMap]] 7", OF a]
    fetch_failure [where Get = "ex_Get (Inl (ErrorString ''context deadline exceeded''))"
        and r = "()" and req = "()" and w = 0 and env = "ex_files []" and sem = ex_sem
        and n = "ex_nfd [[ConfigMap]] 7", OF b]
  show ?thesis by simp
qed

section \<open>Stage construction\<close>

lemma manifests_loop_step:
  "manifests_loop env (m # ms) (res, ctrl, logged) =
     (case manifest_kind m of
        Panicked p \<Rightarrow> Panicked p
      | Returned kind \<Rightarrow>
          (case manifest_control m of
             Some c \<Rightarrow>
               (case Decode env c m (field_of c res) of
                  Inl e \<Rightarrow> Panicked (PanicError e)
                | Inr obj \<Rightarrow> manifests_loop env ms (field_upd c obj res, ctrl @ [c], logged))
           | None \<Rightarrow> manifests_loop env ms (res, ctrl, logged @ [manifest_label m])))"
  by (cases "manifest_kind m")
     (simp_all add: manifest_control_def manifest_label_def split: option.splits)

lemma manifests_loop_append:
  "manifests_loop env (pre @ rest) st =
     (case manifests_loop env pre st of
        Panicked p \<Rightarrow> Panicked p
      | Returned st' \<Rightarrow> manifests_loop env rest st')"
proof (induction pre arbitrary: st)
  case Nil
  show ?case by simp
next
  case (Cons m pre)
  obtain res ctrl logged where st: "st = (res, ctrl, logged)"
    by (cases st) auto
  show ?case
    unfolding st append_Cons manifests_loop_step
    by (simp add: Cons.IH split: outcome.splits option.splits sum.splits)
qed

lemma field_of_upd: "field_of c (field_upd c' obj res) = (if c = c' then obj else field_of c res)"
  by (cases c; cases c'; simp)

lemma res_Pod_upd: "res_Pod (field_upd c obj res) = res_Pod res"
  by (cases c; simp)

lemma addResourcesControls_manifests:
  "getAssetsFrom env path = Returned manifests \<Longrightarrow>
     addResourcesControls env path = manifests_loop env manifests (ZeroResources env, [], [])"
  by (simp add: addResourcesControls_def)


subsection \<open>A match of the pattern contains the marker\<close>

lemma rmatch_Literal:
  "rmatch (Literal c # re) prev s = Some r \<Longrightarrow> \<exists>xs. s = c # xs \<and> rmatch re (Some c) xs = Some r"
  by (cases s) (auto split: if_splits)

lemma rmatch_Star_run:
  "rmatch (Star k # re) prev s = Some r \<Longrightarrow>
     \<exists>u v p. s = u @ v \<and> (\<forall>c\<in>set u. in_class k c) \<and> rmatch re p v = Some r"
proof (induction s arbitrary: prev)
  case Nil
  then show ?case by auto
next
  case (Cons x xs)
  show ?case
  proof (cases "in_class k x \<and> rmatch (Star k # re) (Some x) xs \<noteq> None")
    case True
    with Cons.prems have "rmatch (Star k # re) (Some x) xs = Some r" by auto
    from Cons.IH [OF this] obtain u v p where "xs = u @ v" and "\<forall>c\<in>set u. in_class k c"
      and "rmatch re p v = Some r"
      by blast
    with True have "x # xs = (x # u) @ v \<and> (\<forall>c\<in>set (x # u). in_class k c)
        \<and> rmatch re p v = Some r"
      by simp
    then show ?thesis by blast
  next
    case False
    with Cons.prems have "rmatch re prev (x # xs) = Some r"
      by (auto split: if_splits option.splits)
    then have "x # xs = [] @ (x # xs) \<and> (\<forall>c\<in>set []. in_class k c)
        \<and> rmatch re prev (x # xs) = Some r"
      by simp
    then show ?thesis by blast
  qed
qed

text \<open>A match starts with word characters followed by the marker.\<close>

lemma rmatch_reg_shape:
  assumes "rmatch reg prev s = Some r"
  shows "\<exists>u t. s = u @ ''kind:'' @ t \<and> (\<forall>c\<in>set u. is_word_char c)"
proof -
  let ?tail = "[Star WordClass, NoWordBoundary, Star AnyCharNotNL, WordBoundary]"
  from assms have "rmatch (Star WordClass # Literal CHR ''k'' # Literal CHR ''i''
      # Literal CHR ''n'' # Literal CHR ''d'' # Literal CHR '':'' # ?tail) prev s = Some r"
    by (simp add: reg_def split: if_splits)
  from rmatch_Star_run [OF this] obtain u v p where s: "s = u @ v"
    and u: "\<forall>c\<in>set u. in_class WordClass c"
    and a: "rmatch (Literal CHR ''k'' # Literal CHR ''i'' # Literal CHR ''n''
      # Literal CHR ''d'' # Literal CHR '':'' # ?tail) p v = Some r"
    by blast
  from rmatch_Literal [OF a] obtain v1 where v1: "v = CHR ''k'' # v1"
    and b: "rmatch (Literal CHR ''i'' # Literal CHR ''n'' # Literal CHR ''d''
      # Literal CHR '':'' # ?tail) (Some CHR ''k'') v1 = Some r"
    by blast
  from rmatch_Literal [OF b] obtain v2 where v2: "v1 = CHR ''i'' # v2"
    and c: "rmatch (Literal CHR ''n'' # Literal CHR ''d'' # Literal CHR '':'' # ?tail)
      (Some CHR ''i'') v2 = Some r"
    by blast
  from rmatch_Literal [OF c] obtain v3 where v3: "v2 = CHR ''n'' # v3"
    and d: "rmatch (Literal CHR ''d'' # Literal CHR '':'' # ?tail) (Some CHR ''n'') v3 = Some r"
    by blast
  from rmatch_Literal [OF d] obtain v4 where v4: "v3 = CHR ''d'' # v4"
    and e: "rmatch (Literal CHR '':'' # ?tail) (Some CHR ''d'') v4 = Some r"
    by blast
  from rmatch_Literal [OF e] obtain v5 where v5: "v4 = CHR '':'' # v5"
    by blast
  have "s = u @ ''kind:'' @ v5"
    unfolding s v1 v2 v3 v4 v5 by simp
  with u show ?thesis by auto
qed

lemma rmatch_reg_marker:
  assumes "rmatch reg prev s = Some r"
  shows "sublist ''kind:'' s"
proof -
  from rmatch_reg_shape [OF assms] obtain u t where "s = u @ ''kind:'' @ t"
    by blast
  then show ?thesis unfolding sublist_def by blast
qed

lemma find_from_reg_marker:
  "find_from reg prev s = Some m \<Longrightarrow> sublist ''kind:'' s"
proof (induction s arbitrary: prev)
  case Nil
  then obtain r where "rmatch reg prev [] = Some r"
    by (auto split: option.splits)
  then show ?case by (rule rmatch_reg_marker)
next
  case (Cons x xs)
  show ?case
  proof (cases "rmatch reg prev (x # xs)")
    case None
    with Cons.prems have "find_from reg (Some x) xs = Some m" by simp
    from Cons.IH [OF this] show ?thesis by (simp add: sublist_Cons_right)
  next
    case (Some r)
    then show ?thesis by (rule rmatch_reg_marker)
  qed
qed

lemma no_marker_no_match:
  assumes "\<not> sublist ''kind:'' m"
  shows "FindString reg m = []"
proof (cases "find_from reg None m")
  case None
  then show ?thesis by (simp add: FindString_def)
next
  case (Some a)
  with find_from_reg_marker assms show ?thesis by blast
qed

lemma no_marker_panics:
  assumes "\<not> sublist ''kind:'' m"
  shows "manifest_kind m = Panicked IndexOutOfRange"
  using no_marker_no_match [OF assms] by (simp add: manifest_kind_def)


subsection \<open>Failures of stage construction\<close>

text \<open>
  C4 (amended). When a manifest of a kind the \<open>switch\<close> has a case for fails to decode,
  the manifests before it having been processed, stage construction panics with the
  decode error: \<open>addResourcesControls\<close> returns nothing to its caller, and \<open>addState\<close>
  panics with it.
\<close>

theorem decode_failure_panics:
  assumes "getAssetsFrom env path = Returned (pre @ m # post)"
    and "manifests_loop env pre (ZeroResources env, [], []) = Returned (res, ctrl, logged)"
    and "manifest_control m = Some c"
    and "Decode env c m (field_of c res) = Inl e"
  shows "addResourcesControls env path = Panicked (PanicError e) \<and>
     addState env n path = Panicked (PanicError e)"
proof -
  from assms(3) obtain kind where k: "manifest_kind m = Returned kind"
    by (auto simp: manifest_control_def split: outcome.splits)
  have "manifests_loop env (m # post) (res, ctrl, logged) = Panicked (PanicError e)"
    unfolding manifests_loop_step using k assms(3) assms(4) by simp
  with assms(2) have "manifests_loop env (pre @ m # post) (ZeroResources env, [], [])
      = Panicked (PanicError e)"
    by (simp add: manifests_loop_append)
  with addResourcesControls_manifests [OF assms(1)]
  have "addResourcesControls env path = Panicked (PanicError e)" by simp
  then show ?thesis by (simp add: addState_def)
qed

lemma ex_kind_Namespace: "manifest_kind ''kind: Namespace'' = Returned ''Namespace''"
  by (simp add: manifest_kind_def FindString_def reg_def at_word_boundary_def is_word_char_def
      TrimSpace_def space_runes_def trim_left.simps)

lemma ex_kind_Namespace_bad:
  "manifest_kind ''kind: Namespace\<newline>spec: !!'' = Returned ''Namespace''"
  by (simp add: manifest_kind_def FindString_def reg_def at_word_boundary_def is_word_char_def
      TrimSpace_def space_runes_def trim_left.simps)

lemma ex_getAssetsFrom:
  "distinct (map fst dir) \<Longrightarrow> getAssetsFrom (ex_files dir) path = Returned (map snd dir)"
proof -
  assume d: "distinct (map fst dir)"
  have w: "walk_visits (map (\<lambda>(name, content). (name, Some False)) xs) fs
      = Returned (fs @ map fst xs)" for xs :: "(string \<times> string) list" and fs
    by (induction xs arbitrary: fs) (auto split: prod.splits)
  have r: "distinct (map fst xs) \<Longrightarrow> set xs \<subseteq> set dir \<Longrightarrow>
      read_all (ex_files dir) (map fst xs) ms = Returned (ms @ map snd xs)"
    for xs :: "(string \<times> string) list" and ms
  proof (induction xs arbitrary: ms)
    case Nil
    show ?case by simp
  next
    case (Cons x xs)
    obtain name content where x: "x = (name, content)" by (cases x) auto
    with Cons.prems d have "map_of dir name = Some content" by simp
    with Cons x show ?case by (simp add: ex_files_def sublist_Cons_right)
  qed
  from w [of dir "[]"] r [of dir "[]"] d show ?thesis
    by (simp add: getAssetsFrom_def filePathWalkDir_def ex_files_def)
qed

theorem decode_failure_panics_witness:
  "addResourcesControls (ex_files [(''a.yaml'', ''kind: Namespace''),
        (''b.yaml'', ''kind: Namespace\<newline>spec: !!''), (''c.yaml'', ''kind: Service'')])
      ''/opt/nfd/master'' = Panicked (PanicError (ErrorString ''cannot decode'')) \<and>
   addState (ex_files [(''a.yaml'', ''kind: Namespace''),
        (''b.yaml'', ''kind: Namespace\<newline>spec: !!''), (''c.yaml'', ''kind: Service'')])
      (ex_nfd [] 0) ''/opt/nfd/master'' = Panicked (PanicError (ErrorString ''cannot decode''))"
proof -
  let ?env = "ex_files [(''a.yaml'', ''kind: Namespace''),
        (''b.yaml'', ''kind: Namespace\<newline>spec: !!''), (''c.yaml'', ''kind: Service'')]"
  have g: "getAssetsFrom ?env ''/opt/nfd/master''
      = Returned ([''kind: Namespace''] @ ''kind: Namespace\<newline>spec: !!'' # [''kind: Service''])"
    by (simp add: ex_getAssetsFrom)
  have p: "manifests_loop ?env [''kind: Namespace''] (ZeroResources ?env, [], [])
      = Returned ((ZeroResources ?env)\<lparr>res_Namespace := ''kind: Namespace''\<rparr>, [Namespace], [])"
    by (simp add: ex_kind_Namespace switch_kind_def) (simp add: ex_files_def sublist_Cons_right)
  have c: "manifest_control ''kind: Namespace\<newline>spec: !!'' = Some Namespace"
    by (simp add: manifest_control_def ex_kind_Namespace_bad switch_kind_def)
  have d: "Decode ?env Namespace ''kind: Namespace\<newline>spec: !!''
      (field_of Namespace ((ZeroResources ?env)\<lparr>res_Namespace := ''kind: Namespace''\<rparr>))
      = Inl (ErrorString ''cannot decode'')"
    by (simp add: ex_files_def sublist_Cons_right)
  from decode_failure_panics [OF g p c d, of "ex_nfd [] 0"] show ?thesis .
qed

theorem decode_failure_counterexample:
  "addResourcesControls (ex_files [(''b.yaml'', ''kind: Namespace\<newline>spec: !!'')])
      ''/opt/nfd/master'' = Panicked (PanicError (ErrorString ''cannot decode''))"
  by (simp add: addResourcesControls_def ex_getAssetsFrom ex_kind_Namespace_bad switch_kind_def)
     (simp add: ex_files_def sublist_Cons_right)

text \<open>
  C10. A manifest whose text nowhere contains \<open>kind:\<close> gives no match, so the split of
  the empty match has one element and \<open>slce[1]\<close> is out of range: once the manifests
  before it have been processed, stage construction panics with an index error.
\<close>

theorem missing_kind_panics:
  assumes "getAssetsFrom env path = Returned (pre @ m # post)"
    and "manifests_loop env pre (ZeroResources env, [], []) = Returned st"
    and "\<not> sublist ''kind:'' m"
  shows "FindString reg m = [] \<and> Split (FindString reg m) CHR '':'' = [[]] \<and>
     addResourcesControls env path = Panicked IndexOutOfRange"
proof -
  have e: "FindString reg m = []" by (rule no_marker_no_match [OF assms(3)])
  obtain res ctrl logged where st: "st = (res, ctrl, logged)" by (cases st) auto
  have "manifests_loop env (m # post) st = Panicked IndexOutOfRange"
    unfolding st manifests_loop_step by (simp add: no_marker_panics [OF assms(3)])
  with assms(2) have "manifests_loop env (pre @ m # post) (ZeroResources env, [], [])
      = Panicked IndexOutOfRange"
    by (simp add: manifests_loop_append)
  with addResourcesControls_manifests [OF assms(1)] e show ?thesis by simp
qed

theorem missing_kind_panics_witness:
  "addResourcesControls (ex_files [(''a.yaml'', ''kind: Namespace''),
        (''b.yaml'', ''apiVersion: v1\<newline>metadata:\<newline>  name: nfd'')])
      ''/opt/nfd/master'' = Panicked IndexOutOfRange"
proof -
  let ?env = "ex_files [(''a.yaml'', ''kind: Namespace''),
        (''b.yaml'', ''apiVersion: v1\<newline>metadata:\<newline>  name: nfd'')]"
  have g: "getAssetsFrom ?env ''/opt/nfd/master''
      = Returned ([''kind: Namespace''] @ ''apiVersion: v1\<newline>metadata:\<newline>  name: nfd'' # [])"
    by (simp add: ex_getAssetsFrom)
  have p: "manifests_loop ?env [''kind: Namespace''] (ZeroResources ?env, [], [])
      = Returned ((ZeroResources ?env)\<lparr>res_Namespace := ''kind: Namespace''\<rparr>, [Namespace], [])"
    by (simp add: ex_kind_Namespace switch_kind_def) (simp add: ex_files_def sublist_Cons_right)
  have n: "\<not> sublist ''kind:'' ''apiVersion: v1\<newline>metadata:\<newline>  name: nfd''"
    by (simp add: sublist_Cons_right)
  from missing_kind_panics [OF g p n] show ?thesis by simp
qed

subsection \<open>What a built stage holds\<close>

lemma manifests_loop_frame:
  "manifests_loop env ms (res, ctrl, logged) = Returned (res', ctrl', logged') \<Longrightarrow>
     ctrl' = ctrl @ List.map_filter manifest_control ms \<and>
     (\<forall>c. (\<forall>m\<in>set ms. manifest_control m \<noteq> Some c) \<longrightarrow> field_of c res' = field_of c res) \<and>
     res_Pod res' = res_Pod res"
proof (induction ms arbitrary: res ctrl logged)
  case Nil
  then show ?case by (simp add: List.map_filter_simps)
next
  case (Cons m ms)
  from Cons.prems obtain kind where k: "manifest_kind m = Returned kind"
    unfolding manifests_loop_step by (cases "manifest_kind m") simp_all
  show ?case
  proof (cases "manifest_control m")
    case None
    with Cons.prems k
    have "manifests_loop env ms (res, ctrl, logged @ [manifest_label m])
        = Returned (res', ctrl', logged')"
      unfolding manifests_loop_step by simp
    from Cons.IH [OF this] None show ?thesis
      by (simp add: List.map_filter_simps)
  next
    case (Some c)
    with Cons.prems k obtain obj where
      l: "manifests_loop env ms (field_upd c obj res, ctrl @ [c], logged)
        = Returned (res', ctrl', logged')"
      unfolding manifests_loop_step
      by (cases "Decode env c m (field_of c res)") simp_all
    from Cons.IH [OF l] Some show ?thesis
      by (simp add: List.map_filter_simps field_of_upd res_Pod_upd)
  qed
qed

lemma manifests_loop_skips:
  assumes "\<forall>m\<in>set ms. \<exists>kind. manifest_kind m = Returned kind"
    and "\<forall>m\<in>set ms. \<forall>c obj. manifest_control m = Some c \<longrightarrow> (\<exists>obj'. Decode env c m obj = Inr obj')"
  shows "\<exists>res'.
     manifests_loop env ms (res, ctrl, logged)
       = Returned (res', ctrl @ List.map_filter manifest_control ms,
                   logged @ map manifest_label (filter unrecognized ms)) \<and>
     (\<forall>ctrl2 logged2. manifests_loop env (filter (\<lambda>m. \<not> unrecognized m) ms) (res, ctrl2, logged2)
       = Returned (res', ctrl2 @ List.map_filter manifest_control ms, logged2))"
  using assms
proof (induction ms arbitrary: res ctrl logged)
  case Nil
  show ?case by (simp add: List.map_filter_simps)
next
  case (Cons m ms)
  from Cons.prems(1) obtain kind where k: "manifest_kind m = Returned kind" by auto
  from Cons.prems have p1: "\<forall>m\<in>set ms. \<exists>kind. manifest_kind m = Returned kind"
    and p2: "\<forall>m\<in>set ms. \<forall>c obj. manifest_control m = Some c \<longrightarrow>
      (\<exists>obj'. Decode env c m obj = Inr obj')"
    by simp_all
  show ?case
  proof (cases "manifest_control m")
    case None
    with k have u: "unrecognized m"
      by (simp add: unrecognized_def manifest_control_def)
    from Cons.IH [OF p1 p2, of res ctrl "logged @ [manifest_label m]"]
    show ?thesis
      unfolding manifests_loop_step using k None u
      by (simp add: List.map_filter_simps)
  next
    case (Some c)
    with k have u: "\<not> unrecognized m"
      by (simp add: unrecognized_def manifest_control_def)
    from Cons.prems(2) Some have "\<exists>obj'. Decode env c m (field_of c res) = Inr obj'"
      by simp
    then obtain obj where d: "Decode env c m (field_of c res) = Inr obj" ..
    from Cons.IH [OF p1 p2, of "field_upd c obj res" "ctrl @ [c]" logged]
    obtain res' where
      a: "manifests_loop env ms (field_upd c obj res, ctrl @ [c], logged)
        = Returned (res', (ctrl @ [c]) @ List.map_filter manifest_control ms,
                    logged @ map manifest_label (filter unrecognized ms))"
      and b: "\<forall>ctrl2 logged2.
        manifests_loop env (filter (\<lambda>m. \<not> unrecognized m) ms) (field_upd c obj res, ctrl2, logged2)
        = Returned (res', ctrl2 @ List.map_filter manifest_control ms, logged2)"
      by blast
    have "manifests_loop env (m # ms) (res, ctrl, logged)
        = Returned (res', ctrl @ List.map_filter manifest_control (m # ms),
                    logged @ map manifest_label (filter unrecognized (m # ms)))"
      unfolding manifests_loop_step using k Some u d a
      by (simp add: List.map_filter_simps)
    moreover have f: "filter (\<lambda>m. \<not> unrecognized m) (m # ms)
        = m # filter (\<lambda>m. \<not> unrecognized m) ms"
      using u by simp
    have "manifests_loop env (filter (\<lambda>m. \<not> unrecognized m) (m # ms)) (res, ctrl2, logged2)
        = Returned (res', ctrl2 @ List.map_filter manifest_control (m # ms), logged2)"
      for ctrl2 logged2
      unfolding f manifests_loop_step
      using k Some d b [rule_format, of "ctrl2 @ [c]" logged2]
      by (simp add: List.map_filter_simps)
    ultimately show ?thesis by blast
  qed
qed

lemma recognized_count:
  assumes "\<forall>m\<in>set ms. \<exists>kind. manifest_kind m = Returned kind"
  shows "length (List.map_filter manifest_control ms)
      = length ms - length (filter unrecognized ms)"
proof -
  have "length (List.map_filter manifest_control ms) + length (filter unrecognized ms) = length ms"
    using assms
  proof (induction ms)
    case Nil
    show ?case by (simp add: List.map_filter_simps)
  next
    case (Cons m ms)
    from Cons.prems obtain kind where k: "manifest_kind m = Returned kind" by auto
    from Cons show ?case
      using k
      by (cases "switch_kind kind")
         (simp_all add: List.map_filter_simps unrecognized_def manifest_control_def)
  qed
  then show ?thesis by simp
qed


text \<open>
  C5 (amended). Take a directory in which every file carries a kind label and every
  file of a kind the \<open>switch\<close> has a case for decodes. Stage construction then
  returns. With \<open>N\<close> files of which \<open>K\<close> have a kind without a case (\<open>Pod\<close> is such
  a kind), it builds \<open>N - K\<close> control functions, those of the other files in the order of
  the files, and logs the \<open>K\<close> unknown kinds, one entry per file; the bundle and the
  control list are the ones built from the directory without these \<open>K\<close> files.
\<close>

theorem unknown_kinds_skipped:
  assumes "getAssetsFrom env path = Returned manifests"
    and "\<forall>m\<in>set manifests. \<exists>kind. manifest_kind m = Returned kind"
    and "\<forall>m\<in>set manifests. \<forall>c obj. manifest_control m = Some c \<longrightarrow>
           (\<exists>obj'. Decode env c m obj = Inr obj')"
  shows "\<exists>res ctrl logged.
     addResourcesControls env path = Returned (res, ctrl, logged) \<and>
     ctrl = List.map_filter manifest_control manifests \<and>
     length ctrl = length manifests - length (filter unrecognized manifests) \<and>
     logged = map manifest_label (filter unrecognized manifests) \<and>
     length logged = length (filter unrecognized manifests) \<and>
     manifests_loop env (filter (\<lambda>m. \<not> unrecognized m) manifests) (ZeroResources env, [], [])
       = Returned (res, ctrl, [])"
proof -
  from manifests_loop_skips [OF assms(2) assms(3), of "ZeroResources env" "[]" "[]"]
  obtain res where
    a: "manifests_loop env manifests (ZeroResources env, [], [])
      = Returned (res, List.map_filter manifest_control manifests,
                  map manifest_label (filter unrecognized manifests))"
    and b: "manifests_loop env (filter (\<lambda>m. \<not> unrecognized m) manifests) (ZeroResources env, [], [])
      = Returned (res, List.map_filter manifest_control manifests, [])"
    by auto
  from a addResourcesControls_manifests [OF assms(1)]
  have "addResourcesControls env path
      = Returned (res, List.map_filter manifest_control manifests,
                  map manifest_label (filter unrecognized manifests))"
    by simp
  with b recognized_count [OF assms(2)] show ?thesis by simp
qed

lemma ex_kind_ServiceAccount:
  "manifest_kind ''kind: ServiceAccount'' = Returned ''ServiceAccount''"
  by (simp add: manifest_kind_def FindString_def reg_def at_word_boundary_def is_word_char_def
      TrimSpace_def space_runes_def trim_left.simps)

lemma ex_kind_Service: "manifest_kind ''kind: Service'' = Returned ''Service''"
  by (simp add: manifest_kind_def FindString_def reg_def at_word_boundary_def is_word_char_def
      TrimSpace_def space_runes_def trim_left.simps)

lemma ex_kind_Frobnicator: "manifest_kind ''kind: Frobnicator'' = Returned ''Frobnicator''"
  by (simp add: manifest_kind_def FindString_def reg_def at_word_boundary_def is_word_char_def
      TrimSpace_def space_runes_def trim_left.simps)

lemma ex_kind_ConfigMap1:
  "manifest_kind ''kind: ConfigMap\<newline>data: 1'' = Returned ''ConfigMap''"
  by (simp add: manifest_kind_def FindString_def reg_def at_word_boundary_def is_word_char_def
      TrimSpace_def space_runes_def trim_left.simps)

lemma ex_kind_ConfigMap2:
  "manifest_kind ''kind: ConfigMap\<newline>data: 2'' = Returned ''ConfigMap''"
  by (simp add: manifest_kind_def FindString_def reg_def at_word_boundary_def is_word_char_def
      TrimSpace_def space_runes_def trim_left.simps)

lemma ex_kind_Pod: "manifest_kind ''kind: Pod'' = Returned ''Pod''"
  by (simp add: manifest_kind_def FindString_def reg_def at_word_boundary_def is_word_char_def
      TrimSpace_def space_runes_def trim_left.simps)

lemma ex_Decode:
  "Decode (ex_files dir) c m obj
     = (if sublist ''!!'' m then Inl (ErrorString ''cannot decode'') else Inr m)"
  by (simp add: ex_files_def)

lemma ex_ZeroResources:
  "ZeroResources (ex_files dir) = \<lparr>res_Namespace = [], res_ServiceAccount = [], res_Role = [],
     res_RoleBinding = [], res_ClusterRole = [], res_ClusterRoleBinding = [],
     res_ConfigMap = [], res_DaemonSet = [], res_Pod = [], res_Service = [],
     res_SecurityContextConstraints = []\<rparr>"
  by (simp add: ex_files_def)

lemmas ex_kinds = ex_kind_Namespace ex_kind_ServiceAccount ex_kind_Service ex_kind_Frobnicator
  ex_kind_ConfigMap1 ex_kind_ConfigMap2 ex_kind_Pod

theorem unknown_kinds_skipped_witness:
  "addResourcesControls (ex_files [(''a.yaml'', ''kind: Namespace''),
       (''b.yaml'', ''kind: ServiceAccount''), (''c.yaml'', ''kind: Frobnicator''),
       (''d.yaml'', ''kind: ConfigMap\<newline>data: 1''), (''e.yaml'', ''kind: Pod''), (''f.yaml'', ''kind: Service'')])
     ''/opt/nfd/worker'' =
   Returned (\<lparr>res_Namespace = ''kind: Namespace'', res_ServiceAccount = ''kind: ServiceAccount'',
       res_Role = [], res_RoleBinding = [], res_ClusterRole = [], res_ClusterRoleBinding = [],
       res_ConfigMap = ''kind: ConfigMap\<newline>data: 1'', res_DaemonSet = [], res_Pod = [],
       res_Service = ''kind: Service'', res_SecurityContextConstraints = []\<rparr>,
     [Namespace, ServiceAccount, ConfigMap, Service], [''Frobnicator'', ''Pod''])"
proof -
  let ?ms = "[''kind: Namespace'', ''kind: ServiceAccount'', ''kind: Frobnicator'',
      ''kind: ConfigMap\<newline>data: 1'', ''kind: Pod'', ''kind: Service'']"
  let ?env = "ex_files [(''a.yaml'', ''kind: Namespace''),
       (''b.yaml'', ''kind: ServiceAccount''), (''c.yaml'', ''kind: Frobnicator''),
       (''d.yaml'', ''kind: ConfigMap\<newline>data: 1''), (''e.yaml'', ''kind: Pod''), (''f.yaml'', ''kind: Service'')]"
  have g: "getAssetsFrom ?env ''/opt/nfd/worker'' = Returned ?ms"
    by (simp add: ex_getAssetsFrom)
  have h1: "\<forall>m\<in>set ?ms. \<exists>kind. manifest_kind m = Returned kind"
    by (simp add: ex_kinds)
  have h2: "\<forall>m\<in>set ?ms. \<forall>c obj. manifest_control m = Some c \<longrightarrow>
      (\<exists>obj'. Decode ?env c m obj = Inr obj')"
    by (simp add: ex_Decode sublist_Cons_right)
  have v: "manifests_loop ?env (filter (\<lambda>m. \<not> unrecognized m) ?ms) (ZeroResources ?env, [], [])
      = Returned (\<lparr>res_Namespace = ''kind: Namespace'', res_ServiceAccount = ''kind: ServiceAccount'',
       res_Role = [], res_RoleBinding = [], res_ClusterRole = [], res_ClusterRoleBinding = [],
       res_ConfigMap = ''kind: ConfigMap\<newline>data: 1'', res_DaemonSet = [], res_Pod = [],
       res_Service = ''kind: Service'', res_SecurityContextConstraints = []\<rparr>,
       [Namespace, ServiceAccount, ConfigMap, Service], [])"
    by (simp add: unrecognized_def ex_kinds switch_kind_def ex_Decode ex_ZeroResources
        sublist_Cons_right)
  have l: "map manifest_label (filter unrecognized ?ms) = [''Frobnicator'', ''Pod'']"
    by (simp add: unrecognized_def manifest_label_def ex_kinds switch_kind_def)
  from unknown_kinds_skipped [OF g h1 h2] v l show ?thesis by auto
qed

theorem unknown_kinds_counterexample:
  "addResourcesControls (ex_files [(''a.yaml'', ''kind: Frobnicator''),
       (''b.yaml'', ''apiVersion: v1'')]) ''/opt/nfd/worker'' = Panicked IndexOutOfRange \<and>
   addResourcesControls (ex_files [(''a.yaml'', ''kind: Frobnicator''),
       (''b.yaml'', ''kind: Namespace\<newline>spec: !!'')]) ''/opt/nfd/worker''
     = Panicked (PanicError (ErrorString ''cannot decode''))"
proof -
  have n: "manifest_kind ''apiVersion: v1'' = Panicked IndexOutOfRange"
    by (simp add: manifest_kind_def FindString_def reg_def at_word_boundary_def is_word_char_def)
  show ?thesis
    by (simp add: addResourcesControls_def ex_getAssetsFrom ex_kinds ex_kind_Namespace_bad n
        switch_kind_def ex_Decode ex_ZeroResources sublist_Cons_right)
qed


text \<open>
  C9 (amended). Let stage construction return for a directory, and let \<open>m\<close> be the
  last manifest of its kind \<open>c\<close> in the order of traversal. The field of the bundle
  for \<open>c\<close> then holds the object that decoding \<open>m\<close> into that field, as the manifests
  before \<open>m\<close> left it, gave: the last write is the one that stays. It is the decode of
  \<open>m\<close> alone, into the zero value, whenever what the decoder gives for \<open>m\<close> does not
  depend on the content of its target. The control list still has one entry per
  manifest of a kind with a case, in the order of the manifests, repeated kinds
  included. A field that no manifest of the directory decodes into, the one for \<open>Pod\<close>
  among them, keeps its zero value.
\<close>

theorem last_write_wins:
  assumes "getAssetsFrom env path = Returned (pre @ m # post)"
    and "addResourcesControls env path = Returned (res, ctrl, logged)"
    and "manifest_control m = Some c"
    and "\<forall>m'\<in>set post. manifest_control m' \<noteq> Some c"
  shows "\<exists>res0 ctrl0 logged0 obj.
     manifests_loop env pre (ZeroResources env, [], []) = Returned (res0, ctrl0, logged0) \<and>
     Decode env c m (field_of c res0) = Inr obj \<and>
     field_of c res = obj \<and>
     ((\<forall>obj'. Decode env c m obj' = Decode env c m (field_of c (ZeroResources env))) \<longrightarrow>
        Decode env c m (field_of c (ZeroResources env)) = Inr (field_of c res)) \<and>
     ctrl = List.map_filter manifest_control (pre @ m # post) \<and>
     (\<forall>c'. (\<forall>m'\<in>set (pre @ m # post). manifest_control m' \<noteq> Some c') \<longrightarrow>
        field_of c' res = field_of c' (ZeroResources env)) \<and>
     res_Pod res = res_Pod (ZeroResources env)"
proof -
  have all: "manifests_loop env (pre @ m # post) (ZeroResources env, [], [])
      = Returned (res, ctrl, logged)"
    using addResourcesControls_manifests [OF assms(1)] assms(2) by simp
  then obtain res0 ctrl0 logged0 where
    p: "manifests_loop env pre (ZeroResources env, [], []) = Returned (res0, ctrl0, logged0)"
    and r: "manifests_loop env (m # post) (res0, ctrl0, logged0) = Returned (res, ctrl, logged)"
    unfolding manifests_loop_append
    by (cases "manifests_loop env pre (ZeroResources env, [], [])") auto
  from assms(3) obtain kind where k: "manifest_kind m = Returned kind"
    by (auto simp: manifest_control_def split: outcome.splits)
  from r k assms(3) obtain obj where
    d: "Decode env c m (field_of c res0) = Inr obj"
    and l: "manifests_loop env post (field_upd c obj res0, ctrl0 @ [c], logged0)
      = Returned (res, ctrl, logged)"
    unfolding manifests_loop_step
    by (cases "Decode env c m (field_of c res0)") simp_all
  from manifests_loop_frame [OF l] assms(4)
  have f: "field_of c res = obj" by (simp add: field_of_upd)
  from d f have "(\<forall>obj'. Decode env c m obj' = Decode env c m (field_of c (ZeroResources env))) \<longrightarrow>
      Decode env c m (field_of c (ZeroResources env)) = Inr (field_of c res)"
    by metis
  moreover from manifests_loop_frame [OF all]
  have "ctrl = List.map_filter manifest_control (pre @ m # post)"
    and "\<forall>c'. (\<forall>m'\<in>set (pre @ m # post). manifest_control m' \<noteq> Some c') \<longrightarrow>
        field_of c' res = field_of c' (ZeroResources env)"
    and "res_Pod res = res_Pod (ZeroResources env)"
    by simp_all
  ultimately show ?thesis using p d f by blast
qed

theorem last_write_wins_witness:
  "addResourcesControls (ex_files [(''a.yaml'', ''kind: ConfigMap\<newline>data: 1''),
       (''b.yaml'', ''kind: Service''), (''c.yaml'', ''kind: ConfigMap\<newline>data: 2'')])
     ''/opt/nfd/master'' =
   Returned (\<lparr>res_Namespace = [], res_ServiceAccount = [],
       res_Role = [], res_RoleBinding = [], res_ClusterRole = [], res_ClusterRoleBinding = [],
       res_ConfigMap = ''kind: ConfigMap\<newline>data: 2'', res_DaemonSet = [], res_Pod = [],
       res_Service = ''kind: Service'', res_SecurityContextConstraints = []\<rparr>,
     [ConfigMap, Service, ConfigMap], []) \<and>
   (\<exists>res0 ctrl0 logged0.
      manifests_loop (ex_files [(''a.yaml'', ''kind: ConfigMap\<newline>data: 1''),
          (''b.yaml'', ''kind: Service''), (''c.yaml'', ''kind: ConfigMap\<newline>data: 2'')])
        [''kind: ConfigMap\<newline>data: 1'', ''kind: Service'']
        (ZeroResources (ex_files [(''a.yaml'', ''kind: ConfigMap\<newline>data: 1''),
          (''b.yaml'', ''kind: Service''), (''c.yaml'', ''kind: ConfigMap\<newline>data: 2'')]), [], [])
        = Returned (res0, ctrl0, logged0) \<and>
      field_of ConfigMap res0 = ''kind: ConfigMap\<newline>data: 1'')"
proof -
  let ?env = "ex_files [(''a.yaml'', ''kind: ConfigMap\<newline>data: 1''),
       (''b.yaml'', ''kind: Service''), (''c.yaml'', ''kind: ConfigMap\<newline>data: 2'')]"
  let ?res = "\<lparr>res_Namespace = [], res_ServiceAccount = [],
       res_Role = [], res_RoleBinding = [], res_ClusterRole = [], res_ClusterRoleBinding = [],
       res_ConfigMap = ''kind: ConfigMap\<newline>data: 2'', res_DaemonSet = [], res_Pod = [],
       res_Service = ''kind: Service'', res_SecurityContextConstraints = []\<rparr>"
  have g: "getAssetsFrom ?env ''/opt/nfd/master''
      = Returned ([''kind: ConfigMap\<newline>data: 1'', ''kind: Service'']
          @ ''kind: ConfigMap\<newline>data: 2'' # [])"
    by (simp add: ex_getAssetsFrom)
  have a: "addResourcesControls ?env ''/opt/nfd/master''
      = Returned (?res, [ConfigMap, Service, ConfigMap], [])"
    by (simp add: addResourcesControls_def ex_getAssetsFrom ex_kinds switch_kind_def ex_Decode
        ex_ZeroResources sublist_Cons_right)
  have c: "manifest_control ''kind: ConfigMap\<newline>data: 2'' = Some ConfigMap"
    by (simp add: manifest_control_def ex_kinds switch_kind_def)
  have n: "\<forall>m'\<in>set []. manifest_control m' \<noteq> Some ConfigMap" by simp
  have p: "manifests_loop ?env [''kind: ConfigMap\<newline>data: 1'', ''kind: Service'']
      (ZeroResources ?env, [], [])
      = Returned (\<lparr>res_Namespace = [], res_ServiceAccount = [],
       res_Role = [], res_RoleBinding = [], res_ClusterRole = [], res_ClusterRoleBinding = [],
       res_ConfigMap = ''kind: ConfigMap\<newline>data: 1'', res_DaemonSet = [], res_Pod = [],
       res_Service = ''kind: Service'', res_SecurityContextConstraints = []\<rparr>,
       [ConfigMap, Service], [])"
    by (simp add: ex_kinds switch_kind_def ex_Decode ex_ZeroResources sublist_Cons_right)
  from last_write_wins [OF g a c n] a p show ?thesis by simp
qed

theorem last_write_merged_counterexample:
  "addResourcesControls (ex_merging [(''a.yaml'', ''kind: ConfigMap\<newline>data: 1''),
       (''b.yaml'', ''kind: ConfigMap\<newline>data: 2'')]) ''/opt/nfd/master'' =
     Returned (\<lparr>res_Namespace = [], res_ServiceAccount = [], res_Role = [],
         res_RoleBinding = [], res_ClusterRole = [], res_ClusterRoleBinding = [],
         res_ConfigMap = ''kind: ConfigMap\<newline>data: 1kind: ConfigMap\<newline>data: 2'',
         res_DaemonSet = [], res_Pod = [], res_Service = [],
         res_SecurityContextConstraints = []\<rparr>,
       [ConfigMap, ConfigMap], []) \<and>
   Decode (ex_merging [(''a.yaml'', ''kind: ConfigMap\<newline>data: 1''),
       (''b.yaml'', ''kind: ConfigMap\<newline>data: 2'')]) ConfigMap
       ''kind: ConfigMap\<newline>data: 2'' [] = Inr ''kind: ConfigMap\<newline>data: 2'' \<and>
   ''kind: ConfigMap\<newline>data: 1kind: ConfigMap\<newline>data: 2''
     \<noteq> ''kind: ConfigMap\<newline>data: 2''"
proof -
  have r: "read_all (ex_merging dir) fs ms = read_all (ex_files dir) fs ms" for dir fs ms
    by (induction fs arbitrary: ms) (simp_all add: ex_merging_def split: sum.splits)
  have w: "Walk (ex_merging dir) = Walk (ex_files dir)" for dir
    by (simp add: ex_merging_def)
  have g: "getAssetsFrom (ex_merging dir) path = getAssetsFrom (ex_files dir) path" for dir path
    by (simp add: getAssetsFrom_def filePathWalkDir_def r w
        split: outcome.splits prod.splits option.splits)
  have d: "Decode (ex_merging dir) c m obj = Inr (obj @ m)" for dir c m obj
    by (simp add: ex_merging_def)
  have z: "ZeroResources (ex_merging dir) = ZeroResources (ex_files dir)" for dir
    by (simp add: ex_merging_def)
  show ?thesis
    by (simp add: addResourcesControls_def g ex_getAssetsFrom ex_kinds switch_kind_def d z
        ex_ZeroResources)
qed

subsection \<open>Initialising once\<close>

text \<open>
  C6. \<open>init\<close> binds the reconciler and the instance and sets the cursor to 0. When the
  stage list is not empty it does nothing else, whatever the file system holds: the
  stage list and the bundles stay as they are. When the stage list is empty and \<open>init\<close>
  returns, it has appended the two stages built from the master and the worker
  directories, so the stage list holds two stages, and every later call of \<open>init\<close>, for
  any reconciler, instance and file system, changes nothing but these bindings and the
  cursor.
\<close>

theorem init_builds_once:
  "(controls n \<noteq> [] \<longrightarrow>
      init env r i n = Returned (n\<lparr>rec := Some r, ins := Some i, idx := 0\<rparr>, [])) \<and>
   (controls n = [] \<and> init env r i n = Returned (n', logged) \<longrightarrow>
      (\<exists>res1 ctrl1 logged1 res2 ctrl2 logged2.
         addResourcesControls env ''/opt/nfd/master'' = Returned (res1, ctrl1, logged1) \<and>
         addResourcesControls env ''/opt/nfd/worker'' = Returned (res2, ctrl2, logged2) \<and>
         n' = n\<lparr>resources := resources n @ [res1, res2], controls := [ctrl1, ctrl2],
                 rec := Some r, ins := Some i, idx := 0\<rparr> \<and>
         logged = logged1 @ logged2) \<and>
      (\<forall>env' r' i'. init env' r' i' n'
         = Returned (n'\<lparr>rec := Some r', ins := Some i', idx := 0\<rparr>, [])))"
proof (intro conjI impI)
  assume "controls n \<noteq> []"
  then show "init env r i n = Returned (n\<lparr>rec := Some r, ins := Some i, idx := 0\<rparr>, [])"
    by (simp add: init_def)
next
  assume a: "controls n = [] \<and> init env r i n = Returned (n', logged)"
  let ?n0 = "n\<lparr>rec := Some r, ins := Some i, idx := 0\<rparr>"
  from a obtain n1 logged1 n2 logged2 where
    s1: "addState env ?n0 ''/opt/nfd/master'' = Returned (n1, logged1)"
    and s2: "addState env n1 ''/opt/nfd/worker'' = Returned (n2, logged2)"
    and e: "n' = n2" "logged = logged1 @ logged2"
    by (auto simp: init_def Let_def split: outcome.splits prod.splits)
  from s1 obtain res1 ctrl1 where
    b1: "addResourcesControls env ''/opt/nfd/master'' = Returned (res1, ctrl1, logged1)"
    and n1: "n1 = ?n0\<lparr>controls := controls ?n0 @ [ctrl1], resources := resources ?n0 @ [res1]\<rparr>"
    by (auto simp: addState_def split: outcome.splits prod.splits)
  from s2 obtain res2 ctrl2 where
    b2: "addResourcesControls env ''/opt/nfd/worker'' = Returned (res2, ctrl2, logged2)"
    and n2: "n2 = n1\<lparr>controls := controls n1 @ [ctrl2], resources := resources n1 @ [res2]\<rparr>"
    by (auto simp: addState_def split: outcome.splits prod.splits)
  from a n1 n2 e have n': "n' = n\<lparr>resources := resources n @ [res1, res2],
      controls := [ctrl1, ctrl2], rec := Some r, ins := Some i, idx := 0\<rparr>"
    by simp
  with b1 b2 e
  show "\<exists>res1 ctrl1 logged1 res2 ctrl2 logged2.
         addResourcesControls env ''/opt/nfd/master'' = Returned (res1, ctrl1, logged1) \<and>
         addResourcesControls env ''/opt/nfd/worker'' = Returned (res2, ctrl2, logged2) \<and>
         n' = n\<lparr>resources := resources n @ [res1, res2], controls := [ctrl1, ctrl2],
                 rec := Some r, ins := Some i, idx := 0\<rparr> \<and>
         logged = logged1 @ logged2"
    by blast
  from n' have "controls n' \<noteq> []" by simp
  then show "\<forall>env' r' i'. init env' r' i' n'
      = Returned (n'\<lparr>rec := Some r', ins := Some i', idx := 0\<rparr>, [])"
    by (simp add: init_def)
qed

theorem init_builds_once_witness:
  "init (ex_files [(''a.yaml'', ''kind: Namespace''), (''b.yaml'', ''kind: Frobnicator'')]) () ()
      (ex_nfd [] 5) =
     Returned (\<lparr>resources = [
         \<lparr>res_Namespace = ''kind: Namespace'', res_ServiceAccount = [], res_Role = [],
           res_RoleBinding = [], res_ClusterRole = [], res_ClusterRoleBinding = [],
           res_ConfigMap = [], res_DaemonSet = [], res_Pod = [], res_Service = [],
           res_SecurityContextConstraints = []\<rparr>,
         \<lparr>res_Namespace = ''kind: Namespace'', res_ServiceAccount = [], res_Role = [],
           res_RoleBinding = [], res_ClusterRole = [], res_ClusterRoleBinding = [],
           res_ConfigMap = [], res_DaemonSet = [], res_Pod = [], res_Service = [],
           res_SecurityContextConstraints = []\<rparr>],
       controls = [[Namespace], [Namespace]], rec = Some (), ins = Some (), idx = 0\<rparr>,
       [''Frobnicator'', ''Frobnicator'']) \<and>
   init (ex_files [(''z.yaml'', ''kind: Service'')]) () () (ex_nfd [[Namespace], [Namespace]] 2) =
     Returned (\<lparr>resources = [], controls = [[Namespace], [Namespace]],
       rec = Some (), ins = Some (), idx = 0\<rparr>, [])"
proof -
  let ?env = "ex_files [(''a.yaml'', ''kind: Namespace''), (''b.yaml'', ''kind: Frobnicator'')]"
  have b: "addResourcesControls ?env path
      = Returned (\<lparr>res_Namespace = ''kind: Namespace'', res_ServiceAccount = [], res_Role = [],
           res_RoleBinding = [], res_ClusterRole = [], res_ClusterRoleBinding = [],
           res_ConfigMap = [], res_DaemonSet = [], res_Pod = [], res_Service = [],
           res_SecurityContextConstraints = []\<rparr>, [Namespace], [''Frobnicator''])" for path
    by (simp add: addResourcesControls_def ex_getAssetsFrom ex_kinds switch_kind_def ex_Decode
        ex_ZeroResources sublist_Cons_right)
  have i: "init ?env () () (ex_nfd [] 5) =
     Returned (\<lparr>resources = [
         \<lparr>res_Namespace = ''kind: Namespace'', res_ServiceAccount = [], res_Role = [],
           res_RoleBinding = [], res_ClusterRole = [], res_ClusterRoleBinding = [],
           res_ConfigMap = [], res_DaemonSet = [], res_Pod = [], res_Service = [],
           res_SecurityContextConstraints = []\<rparr>,
         \<lparr>res_Namespace = ''kind: Namespace'', res_ServiceAccount = [], res_Role = [],
           res_RoleBinding = [], res_ClusterRole = [], res_ClusterRoleBinding = [],
           res_ConfigMap = [], res_DaemonSet = [], res_Pod = [], res_Service = [],
           res_SecurityContextConstraints = []\<rparr>],
       controls = [[Namespace], [Namespace]], rec = Some (), ins = Some (), idx = 0\<rparr>,
       [''Frobnicator'', ''Frobnicator''])"
    by (simp add: init_def addState_def b ex_nfd_def)
  from init_builds_once [of "ex_nfd [[Namespace], [Namespace]] 2"
      "ex_files [(''z.yaml'', ''kind: Service'')]" "()" "()"]
    init_builds_once [of "ex_nfd [] 5" ?env "()" "()"] i
  show ?thesis by (simp add: ex_nfd_def)
qed

section \<open>Where the kind label is taken from\<close>

lemma not_word_bytes:
  "\<not> is_word_char CHR 0x09" "\<not> is_word_char CHR 0x0A" "\<not> is_word_char CHR 0x0B"
  "\<not> is_word_char CHR 0x0C" "\<not> is_word_char CHR 0x0D" "\<not> is_word_char CHR 0x20"
  "\<not> is_word_char CHR 0xC2" "\<not> is_word_char CHR 0xE1" "\<not> is_word_char CHR 0xE2"
  "\<not> is_word_char CHR 0xE3" "\<not> is_word_char CHR 0x85" "\<not> is_word_char CHR 0xA0"
  "\<not> is_word_char CHR 0x80" "\<not> is_word_char CHR 0x81" "\<not> is_word_char CHR 0x82"
  "\<not> is_word_char CHR 0x83" "\<not> is_word_char CHR 0x84" "\<not> is_word_char CHR 0x86"
  "\<not> is_word_char CHR 0x87" "\<not> is_word_char CHR 0x88" "\<not> is_word_char CHR 0x89"
  "\<not> is_word_char CHR 0x8A" "\<not> is_word_char CHR 0xA8" "\<not> is_word_char CHR 0xA9"
  "\<not> is_word_char CHR 0xAF" "\<not> is_word_char CHR 0x9F" "\<not> is_word_char CHR '':''"
  by (simp_all add: is_word_char_def)

lemma word_bytes:
  "is_word_char CHR ''k''" "is_word_char CHR ''i''" "is_word_char CHR ''n''"
  "is_word_char CHR ''d''"
  by (simp_all add: is_word_char_def)

lemma rune_width_none:
  "(\<And>p. p \<in> set runes \<Longrightarrow> p \<noteq> [] \<Longrightarrow> \<not> prefix p s) \<Longrightarrow> rune_width runes s = 0"
  by (induction runes) auto



lemma space_runes_heads: "\<forall>p\<in>set space_runes. p \<noteq> [] \<and> \<not> is_word_char (hd p)"
  by (simp add: space_runes_def not_word_bytes)

lemma space_runes_lasts: "\<forall>p\<in>set (map rev space_runes). p \<noteq> [] \<and> \<not> is_word_char (hd p)"
  by (simp add: space_runes_def not_word_bytes)


lemma rune_width_word:
  assumes "\<forall>p\<in>set runes. p \<noteq> [] \<and> \<not> is_word_char (hd p)" and "is_word_char c"
  shows "rune_width runes (c # s) = 0"
proof (rule rune_width_none)
  fix p assume "p \<in> set runes" and "p \<noteq> []"
  with assms(1) have "\<not> is_word_char (hd p)" by blast
  with assms(2) \<open>p \<noteq> []\<close> show "\<not> prefix p (c # s)"
    by (cases p) (auto simp: prefix_Cons)
qed

lemma trim_left_word:
  assumes "\<forall>p\<in>set runes. p \<noteq> [] \<and> \<not> is_word_char (hd p)" and "is_word_char c"
  shows "trim_left runes (c # s) = c # s"
  by (subst trim_left.simps) (simp add: rune_width_word [OF assms])

lemma space_width_one: "rune_width space_runes (CHR 0x20 # v) = 1"
  by (simp add: space_runes_def)


lemma TrimSpace_space_word:
  assumes "v \<noteq> []" and "\<forall>c\<in>set v. is_word_char c"
  shows "TrimSpace (CHR 0x20 # v) = v"
proof -
  from assms obtain c s where v: "v = c # s" and c: "is_word_char c"
    by (cases v) auto
  from assms have "rev v \<noteq> []" and "\<forall>c\<in>set (rev v). is_word_char c" by simp_all
  then obtain d t where r: "rev v = d # t" and d: "is_word_char d"
    by (cases "rev v") auto
  have "trim_left space_runes (CHR 0x20 # v) = trim_left space_runes v"
    by (subst trim_left.simps) (simp add: space_width_one)
  also have "\<dots> = v"
    unfolding v by (rule trim_left_word [OF space_runes_heads c])
  finally have a: "trim_left space_runes (CHR 0x20 # v) = v" .
  have b: "trim_left (map rev space_runes) (rev v) = rev v"
    unfolding r by (rule trim_left_word [OF space_runes_lasts d])
  show ?thesis by (simp add: TrimSpace_def a b)
qed

lemma Split_no_sep: "sep \<notin> set s \<Longrightarrow> Split s sep = [s]"
  by (induction s) auto

lemma Split_kind_value:
  assumes "\<forall>c\<in>set v. is_word_char c"
  shows "Split (''kind: '' @ v) CHR '':'' = [''kind'', CHR 0x20 # v]"
proof -
  from assms not_word_bytes(27) have "CHR '':'' \<notin> set v" by blast
  then have "Split (CHR 0x20 # v) CHR '':'' = [CHR 0x20 # v]"
    by (simp add: Split_no_sep)
  then show ?thesis by simp
qed


text \<open>No match starts inside a text that lacks the marker and ends in a non-word byte.\<close>

lemma no_match_before_marker:
  assumes "\<not> sublist ''kind:'' p" and "p \<noteq> []" and "\<not> is_word_char (last p)"
  shows "rmatch reg prev (p @ t) = None"
proof (rule ccontr)
  assume "rmatch reg prev (p @ t) \<noteq> None"
  then obtain r where "rmatch reg prev (p @ t) = Some r" by auto
  from rmatch_reg_shape [OF this] obtain u t' where
    e: "p @ t = u @ ''kind:'' @ t'" and u: "\<forall>c\<in>set u. is_word_char c"
    by blast
  from e have "p @ t = (u @ ''kind:'') @ t'" by simp
  then obtain us where "(p = (u @ ''kind:'') @ us \<and> us @ t = t') \<or>
      (p @ us = u @ ''kind:'' \<and> t = us @ t')"
    unfolding append_eq_append_conv2 by blast
  then show False
  proof
    assume "p = (u @ ''kind:'') @ us \<and> us @ t = t'"
    then have "p = u @ ''kind:'' @ us" by simp
    then have "sublist ''kind:'' p" unfolding sublist_def by blast
    with assms(1) show False ..
  next
    assume a: "p @ us = u @ ''kind:'' \<and> t = us @ t'"
    show False
    proof (cases "us = []")
      case True
      with a have "p = u @ ''kind:'' @ []" by simp
      then have "sublist ''kind:'' p" unfolding sublist_def by blast
      with assms(1) show False ..
    next
      case False
      then have us: "us = butlast us @ [last us]" by simp
      from a have "p @ butlast us @ [last us] = u @ ''kind'' @ [CHR '':'']"
        using us by (metis append_Cons append_Nil)
      then have "(p @ butlast us) @ [last us] = (u @ ''kind'') @ [CHR '':'']" by simp
      then have "p @ butlast us = u @ ''kind''" by (simp only: append1_eq_conv)
      then have "set p \<subseteq> set (u @ ''kind'')"
        by (metis set_append Un_upper1)
      moreover have "last p \<in> set p" using assms(2) by simp
      ultimately have "last p \<in> set u \<union> set ''kind''" by auto
      with u have "is_word_char (last p)"
        by (auto simp: word_bytes)
      with assms(3) show False ..
    qed
  qed
qed


text \<open>The final \<^verbatim>\<open>.*\b\<close> runs to the end of a word that ends the line.\<close>

lemma rmatch_to_line_end:
  assumes "v \<noteq> []" and "\<forall>c\<in>set v. is_word_char c" and "rest = [] \<or> hd rest = CHR 0x0A"
  shows "rmatch [Star AnyCharNotNL, WordBoundary] prev (v @ rest) = Some rest"
  using assms(1,2)
proof (induction v arbitrary: prev)
  case Nil
  then show ?case by simp
next
  case (Cons x xs)
  from Cons.prems have x: "is_word_char x" by simp
  with not_word_bytes(2) have nl: "x \<noteq> CHR 0x0A" by auto
  have "rmatch [Star AnyCharNotNL, WordBoundary] (Some x) (xs @ rest) = Some rest"
  proof (cases "xs = []")
    case False
    with Cons show ?thesis by simp
  next
    case True
    from assms(3) show ?thesis
    proof
      assume "rest = []"
      with True x show ?thesis by (simp add: at_word_boundary_def)
    next
      assume h: "hd rest = CHR 0x0A"
      show ?thesis
      proof (cases rest)
        case Nil
        with True x show ?thesis by (simp add: at_word_boundary_def)
      next
        case (Cons y ys)
        with h have "y = CHR 0x0A" by simp
        with True x Cons show ?thesis
          by (simp add: at_word_boundary_def not_word_bytes)
      qed
    qed
  qed
  with nl show ?case by simp
qed

text \<open>The pattern matches at the marker, up to the end of the value.\<close>

lemma rmatch_at_marker:
  assumes "v \<noteq> []" and "\<forall>c\<in>set v. is_word_char c" and "rest = [] \<or> hd rest = CHR 0x0A"
    and "case prev of None \<Rightarrow> True | Some c \<Rightarrow> \<not> is_word_char c"
  shows "rmatch reg prev (''kind: '' @ v @ rest) = Some rest"
proof -
  have b: "at_word_boundary prev (''kind: '' @ v @ rest)"
    using assms(4) by (cases prev) (simp_all add: at_word_boundary_def word_bytes)
  have e: "rmatch [Star AnyCharNotNL, WordBoundary] (Some CHR 0x20) (v @ rest) = Some rest"
    by (rule rmatch_to_line_end [OF assms(1,2,3)])
  have t: "rmatch [Star WordClass, NoWordBoundary, Star AnyCharNotNL, WordBoundary]
      (Some CHR '':'') (CHR 0x20 # v @ rest) = Some rest"
    using e by (simp add: at_word_boundary_def not_word_bytes)
  show ?thesis
    using b t by (simp add: reg_def word_bytes not_word_bytes)
qed

lemma find_from_skips:
  assumes "\<not> sublist ''kind:'' pre" and "pre = [] \<or> \<not> is_word_char (last pre)"
  shows "find_from reg prev (pre @ t)
      = find_from reg (if pre = [] then prev else Some (last pre)) t"
  using assms
proof (induction pre arbitrary: prev)
  case Nil
  show ?case by simp
next
  case (Cons x xs)
  from Cons.prems have n: "rmatch reg prev ((x # xs) @ t) = None"
    by (intro no_match_before_marker) simp_all
  from Cons.prems(1) have s: "\<not> sublist ''kind:'' xs"
    by (simp add: sublist_Cons_right)
  from Cons.prems(2) have l: "xs = [] \<or> \<not> is_word_char (last xs)"
    by (cases "xs = []") simp_all
  from n have "find_from reg prev ((x # xs) @ t) = find_from reg (Some x) (xs @ t)"
    by simp
  also from Cons.IH [OF s l, of "Some x"]
  have "\<dots> = find_from reg (if xs = [] then Some x else Some (last xs)) t" .
  finally show ?case by simp
qed

lemma take_matched: "take (length (a @ b) - length b) (a @ b) = a"
  by simp

lemma FindString_marker:
  assumes "\<not> sublist ''kind:'' pre" and "pre = [] \<or> \<not> is_word_char (last pre)"
    and "v \<noteq> []" and "\<forall>c\<in>set v. is_word_char c" and "rest = [] \<or> hd rest = CHR 0x0A"
  shows "FindString reg (pre @ ''kind: '' @ v @ rest) = ''kind: '' @ v"
proof -
  let ?prev = "if pre = [] then None else Some (last pre)"
  have p: "case ?prev of None \<Rightarrow> True | Some c \<Rightarrow> \<not> is_word_char c"
    using assms(2) by auto
  have m: "rmatch reg ?prev (''kind: '' @ v @ rest) = Some rest"
    by (rule rmatch_at_marker [OF assms(3,4,5) p])
  have "find_from reg None (pre @ ''kind: '' @ v @ rest)
      = find_from reg ?prev (''kind: '' @ v @ rest)"
    by (rule find_from_skips [OF assms(1,2)])
  also have "\<dots> = Some (take (length (''kind: '' @ v @ rest) - length rest) (''kind: '' @ v @ rest))"
    using m by simp
  also have "take (length (''kind: '' @ v @ rest) - length rest) (''kind: '' @ v @ rest)
      = ''kind: '' @ v"
    using take_matched [of "''kind: '' @ v" rest] by (simp only: append_assoc)
  finally show ?thesis by (simp add: FindString_def)
qed


text \<open>
  A first consequence: when the text before the first \<open>kind:\<close> does not end in a word
  character, and the marker is followed by a blank and a word that ends its line, that
  word is the label, whatever the text before is (a comment sign, the indentation of a
  nested field) and whatever follows on the later lines.
\<close>

lemma kind_after_marker:
  assumes "\<not> sublist ''kind:'' pre" and "pre = [] \<or> \<not> is_word_char (last pre)"
    and "v \<noteq> []" and "\<forall>c\<in>set v. is_word_char c" and "rest = [] \<or> hd rest = CHR 0x0A"
  shows "manifest_kind (pre @ ''kind: '' @ v @ rest) = Returned v"
proof -
  have f: "FindString reg (pre @ ''kind: '' @ v @ rest) = ''kind: '' @ v"
    by (rule FindString_marker [OF assms])
  have s: "Split (''kind: '' @ v) CHR '':'' = [''kind'', CHR 0x20 # v]"
    by (rule Split_kind_value [OF assms(4)])
  have t: "TrimSpace (CHR 0x20 # v) = v"
    by (rule TrimSpace_space_word [OF assms(3,4)])
  have "manifest_kind (pre @ ''kind: '' @ v @ rest)
      = (if length [''kind'', CHR 0x20 # v] \<le> 1 then Panicked IndexOutOfRange
         else Returned (TrimSpace ([''kind'', CHR 0x20 # v] ! 1)))"
    by (simp only: manifest_kind_def Let_def f s)
  also have "\<dots> = Returned v" by (simp add: t)
  finally show ?thesis .
qed

subsection \<open>The search finds what the pattern means\<close>

lemma lastc_Nil [simp]: "lastc prev [] = prev"
  by (simp add: lastc_def)

lemma lastc_Cons: "lastc prev (x # c) = lastc (Some x) c"
  by (simp add: lastc_def)

lemma lastc_append: "lastc prev (a @ b) = lastc (lastc prev a) b"
  by (simp add: lastc_def)

lemma amatch_Star_zero: "amatch re prev c rest \<Longrightarrow> amatch (Star k # re) prev c rest"
proof -
  assume a: "amatch re prev c rest"
  have "0 \<in> {..length c}" by simp
  moreover have "(\<forall>x\<in>set (take 0 c). in_class k x) \<and>
      amatch re (lastc prev (take 0 c)) (drop 0 c) rest"
    using a by simp
  ultimately show ?thesis unfolding amatch.simps by blast
qed

lemma amatch_Star_more:
  assumes "in_class k x" and "amatch (Star k # re) (Some x) c rest"
  shows "amatch (Star k # re) prev (x # c) rest"
proof -
  from assms(2) obtain n where n: "n \<le> length c" and a: "\<forall>y\<in>set (take n c). in_class k y"
    and m: "amatch re (lastc (Some x) (take n c)) (drop n c) rest"
    by auto
  have "Suc n \<in> {..length (x # c)}" using n by simp
  moreover have "(\<forall>y\<in>set (take (Suc n) (x # c)). in_class k y) \<and>
      amatch re (lastc prev (take (Suc n) (x # c))) (drop (Suc n) (x # c)) rest"
    using a m assms(1) by (simp add: lastc_Cons)
  ultimately show ?thesis unfolding amatch.simps by blast
qed

lemma amatch_Star_cases:
  assumes "amatch (Star k # re) prev c rest"
  obtains (zero) "amatch re prev c rest"
  | (more) x c' where "c = x # c'" and "in_class k x" and "amatch (Star k # re) (Some x) c' rest"
proof -
  from assms obtain n where n: "n \<le> length c" and a: "\<forall>y\<in>set (take n c). in_class k y"
    and m: "amatch re (lastc prev (take n c)) (drop n c) rest"
    by auto
  show thesis
  proof (cases n)
    case 0
    with m zero show thesis by simp
  next
    case (Suc j)
    with n obtain x c' where c: "c = x # c'" by (cases c) auto
    from a Suc c have x: "in_class k x" and a': "\<forall>y\<in>set (take j c'). in_class k y" by simp_all
    from m Suc c have m': "amatch re (lastc (Some x) (take j c')) (drop j c') rest"
      by (simp add: lastc_Cons)
    from n Suc c have "j \<in> {..length c'}" by simp
    with a' m' have "amatch (Star k # re) (Some x) c' rest"
      unfolding amatch.simps by blast
    with c x more show thesis by blast
  qed
qed

lemma rmatch_sound:
  "rmatch re prev s = Some r \<Longrightarrow> \<exists>c. s = c @ r \<and> amatch re prev c r"
proof (induction re prev s rule: rmatch.induct)
  case (1 prev s)
  then show ?case by simp
next
  case (2 re prev s)
  then show ?case by (auto split: if_splits)
next
  case (3 re prev s)
  then show ?case by (auto split: if_splits)
next
  case (4 c re prev)
  then show ?case by simp
next
  case (5 c re prev x xs)
  then show ?case by (auto split: if_splits)
next
  case (6 k re prev)
  from "6.prems" have "rmatch re prev [] = Some r" by simp
  from "6.IH" [OF this] obtain c where "[] = c @ r" and "amatch re prev c r" by blast
  then show ?case using amatch_Star_zero by blast
next
  case (7 k re prev x xs)
  show ?case
  proof (cases "in_class k x")
    case False
    with "7.prems" have "rmatch re prev (x # xs) = Some r" by simp
    from "7.IH"(3) [OF False this] obtain c where "x # xs = c @ r" and "amatch re prev c r"
      by blast
    then show ?thesis using amatch_Star_zero by blast
  next
    case True
    show ?thesis
    proof (cases "rmatch (Star k # re) (Some x) xs")
      case None
      with True "7.prems" have "rmatch re prev (x # xs) = Some r" by simp
      from "7.IH"(2) [OF True None this] obtain c where "x # xs = c @ r" and "amatch re prev c r"
        by blast
      then show ?thesis using amatch_Star_zero by blast
    next
      case (Some r')
      with True "7.prems" have r: "r' = r" by simp
      from "7.IH"(1) [OF True] Some r obtain c where "xs = c @ r"
        and "amatch (Star k # re) (Some x) c r"
        by blast
      with True have "x # xs = (x # c) @ r \<and> amatch (Star k # re) prev (x # c) r"
        using amatch_Star_more by simp
      then show ?thesis by blast
    qed
  qed
qed

lemma rmatch_complete:
  "amatch re prev c r \<Longrightarrow> s = c @ r \<Longrightarrow> rmatch re prev s \<noteq> None"
proof (induction re prev s arbitrary: c rule: rmatch.induct)
  case (1 prev s)
  then show ?case by simp
next
  case (2 re prev s)
  then show ?case by auto
next
  case (3 re prev s)
  then show ?case by auto
next
  case (4 c re prev)
  then show ?case by (auto split: list.splits)
next
  case (5 c re prev x xs)
  then show ?case by (auto split: list.splits)
next
  case (6 k re prev)
  from "6.prems" have "c = []" by simp
  with "6.prems" have "amatch re prev [] r" by (auto elim: amatch_Star_cases)
  with "6.IH" "6.prems" show ?case by simp
next
  case (7 k re prev x xs)
  from "7.prems"(1) show ?case
  proof (cases rule: amatch_Star_cases)
    case zero
    show ?thesis
    proof (cases "in_class k x")
      case False
      with "7.IH"(3) [OF False zero "7.prems"(2)] show ?thesis by simp
    next
      case True
      show ?thesis
      proof (cases "rmatch (Star k # re) (Some x) xs")
        case None
        with "7.IH"(2) [OF True None zero "7.prems"(2)] True show ?thesis by simp
      next
        case (Some a)
        with True show ?thesis by simp
      qed
    qed
  next
    case (more y c')
    with "7.prems"(2) have y: "y = x" and xs: "xs = c' @ r" by simp_all
    from more y have k: "in_class k x" by simp
    from "7.IH"(1) [OF k] more(3) y xs have "rmatch (Star k # re) (Some x) xs \<noteq> None"
      by simp
    with k show ?thesis by auto
  qed
qed


subsection \<open>The match runs to the last word character of its line\<close>

lemma line_end_found:
  "is_word_char p \<or> (\<exists>c\<in>set (takeWhile (\<lambda>c. c \<noteq> CHR 0x0A) s). is_word_char c) \<Longrightarrow>
     rmatch [Star AnyCharNotNL, WordBoundary] (Some p) s \<noteq> None"
proof (induction s arbitrary: p)
  case Nil
  then show ?case by (simp add: at_word_boundary_def)
next
  case (Cons y ys)
  show ?case
  proof (cases "y = CHR 0x0A")
    case True
    with Cons.prems show ?thesis by (simp add: at_word_boundary_def not_word_bytes)
  next
    case False
    show ?thesis
    proof (cases "is_word_char y \<or> (\<exists>c\<in>set (takeWhile (\<lambda>c. c \<noteq> CHR 0x0A) ys). is_word_char c)")
      case True
      from Cons.IH [OF True] False show ?thesis by auto
    next
      case no: False
      with Cons.prems False have "is_word_char p" by auto
      with no False show ?thesis
        by (auto simp: at_word_boundary_def split: option.splits)
    qed
  qed
qed

lemma line_end_greedy:
  "rmatch [Star AnyCharNotNL, WordBoundary] prev s = Some r \<Longrightarrow>
     \<forall>c\<in>set (takeWhile (\<lambda>c. c \<noteq> CHR 0x0A) r). \<not> is_word_char c"
proof (induction s arbitrary: prev)
  case Nil
  then show ?case by (auto split: if_splits)
next
  case (Cons x xs)
  show ?case
  proof (cases "x = CHR 0x0A")
    case True
    with Cons.prems have "r = x # xs" by (auto split: if_splits)
    with True show ?thesis by simp
  next
    case False
    show ?thesis
    proof (cases "rmatch [Star AnyCharNotNL, WordBoundary] (Some x) xs")
      case (Some r')
      with False Cons.prems have "r' = r" by simp
      with Some Cons.IH show ?thesis by blast
    next
      case None
      with False Cons.prems have r: "r = x # xs" by (auto split: if_splits)
      from None line_end_found [of x xs]
      have "\<not> is_word_char x"
        and "\<forall>c\<in>set (takeWhile (\<lambda>c. c \<noteq> CHR 0x0A) xs). \<not> is_word_char c"
        by blast+
      with r False show ?thesis by simp
    qed
  qed
qed

lemma rmatch_tail:
  "rmatch (re1 @ re2) prev s = Some r \<Longrightarrow> \<exists>p s'. rmatch re2 p s' = Some r"
proof (induction re1 arbitrary: prev s)
  case Nil
  then show ?case by auto
next
  case (Cons a re1)
  show ?case
  proof (cases a)
    case WordBoundary
    with Cons.prems have "rmatch (re1 @ re2) prev s = Some r" by (simp split: if_splits)
    then show ?thesis by (rule Cons.IH)
  next
    case NoWordBoundary
    with Cons.prems have "rmatch (re1 @ re2) prev s = Some r" by (simp split: if_splits)
    then show ?thesis by (rule Cons.IH)
  next
    case (Literal x)
    with Cons.prems have "rmatch (Literal x # re1 @ re2) prev s = Some r" by simp
    from rmatch_Literal [OF this] obtain xs where "rmatch (re1 @ re2) (Some x) xs = Some r"
      by blast
    then show ?thesis by (rule Cons.IH)
  next
    case (Star k)
    with Cons.prems have "rmatch (Star k # re1 @ re2) prev s = Some r" by simp
    from rmatch_Star_run [OF this] obtain v p where "rmatch (re1 @ re2) p v = Some r"
      by blast
    then show ?thesis by (rule Cons.IH)
  qed
qed

lemma rmatch_reg_greedy:
  assumes "rmatch reg prev s = Some r"
  shows "\<forall>c\<in>set (takeWhile (\<lambda>c. c \<noteq> CHR 0x0A) r). \<not> is_word_char c"
proof -
  have "reg = [WordBoundary, Star WordClass, Literal CHR ''k'', Literal CHR ''i'',
      Literal CHR ''n'', Literal CHR ''d'', Literal CHR '':'', Star WordClass, NoWordBoundary]
      @ [Star AnyCharNotNL, WordBoundary]"
    by (simp add: reg_def)
  with assms rmatch_tail obtain p s' where
    "rmatch [Star AnyCharNotNL, WordBoundary] p s' = Some r"
    by metis
  then show ?thesis by (rule line_end_greedy)
qed

subsection \<open>What every match of the pattern looks like\<close>

lemma amatch_end_boundary:
  "amatch (re @ [WordBoundary]) prev c rest \<Longrightarrow> at_word_boundary (lastc prev c) rest"
proof (induction re arbitrary: prev c)
  case Nil
  then show ?case by auto
next
  case (Cons a re)
  show ?case
  proof (cases a)
    case WordBoundary
    with Cons show ?thesis by auto
  next
    case NoWordBoundary
    with Cons show ?thesis by auto
  next
    case (Literal x)
    with Cons.prems obtain c' where c: "c = x # c'"
      and "amatch (re @ [WordBoundary]) (Some x) c' rest"
      by (auto split: list.splits)
    from Cons.IH [OF this(2)] c show ?thesis by (simp add: lastc_Cons)
  next
    case (Star k)
    with Cons.prems obtain n where "n \<le> length c"
      and "amatch (re @ [WordBoundary]) (lastc prev (take n c)) (drop n c) rest"
      by auto
    from Cons.IH [OF this(2)] lastc_append [of prev "take n c" "drop n c"]
    show ?thesis by simp
  qed
qed

lemma amatch_bytes:
  "amatch re prev c rest \<Longrightarrow> x \<in> set c \<Longrightarrow> \<exists>a\<in>set re. consumes a x"
proof (induction re arbitrary: prev c)
  case Nil
  then show ?case by simp
next
  case (Cons a re)
  show ?case
  proof (cases a)
    case WordBoundary
    with Cons show ?thesis by auto
  next
    case NoWordBoundary
    with Cons show ?thesis by auto
  next
    case (Literal y)
    with Cons.prems obtain c' where c: "c = y # c'" and m: "amatch re (Some y) c' rest"
      by (auto split: list.splits)
    show ?thesis
    proof (cases "x = y")
      case True
      with Literal show ?thesis by simp
    next
      case False
      with c Cons.prems(2) have "x \<in> set c'" by simp
      from Cons.IH [OF m this] show ?thesis by auto
    qed
  next
    case (Star k)
    with Cons.prems obtain n where "n \<le> length c"
      and t: "\<forall>y\<in>set (take n c). in_class k y"
      and m: "amatch re (lastc prev (take n c)) (drop n c) rest"
      by auto
    from Cons.prems(2) have "x \<in> set (take n c) \<or> x \<in> set (drop n c)"
      by (metis append_take_drop_id set_append Un_iff)
    then show ?thesis
    proof
      assume "x \<in> set (take n c)"
      with t Star show ?thesis by auto
    next
      assume "x \<in> set (drop n c)"
      from Cons.IH [OF m this] show ?thesis by auto
    qed
  qed
qed

lemma amatch_literal_mem:
  "amatch (re1 @ Literal x # re2) prev c rest \<Longrightarrow> x \<in> set c"
proof (induction re1 arbitrary: prev c)
  case Nil
  then show ?case by (auto split: list.splits)
next
  case (Cons a re1)
  show ?case
  proof (cases a)
    case WordBoundary
    with Cons show ?thesis by auto
  next
    case NoWordBoundary
    with Cons show ?thesis by auto
  next
    case (Literal y)
    with Cons.prems obtain c' where c: "c = y # c'"
      and "amatch (re1 @ Literal x # re2) (Some y) c' rest"
      by (auto split: list.splits)
    from Cons.IH [OF this(2)] c show ?thesis by simp
  next
    case (Star k)
    with Cons.prems obtain n where
      "amatch (re1 @ Literal x # re2) (lastc prev (take n c)) (drop n c) rest"
      by auto
    from Cons.IH [OF this] show ?thesis by (rule in_set_dropD)
  qed
qed

lemma amatch_reg_shape:
  assumes "amatch reg prev mt post"
  shows "CHR '':'' \<in> set mt" and "CHR 0x0A \<notin> set mt"
    and "at_word_boundary (Some (last mt)) post"
proof -
  have r1: "reg = [WordBoundary, Star WordClass, Literal CHR ''k'', Literal CHR ''i'',
      Literal CHR ''n'', Literal CHR ''d''] @ Literal CHR '':'' #
      [Star WordClass, NoWordBoundary, Star AnyCharNotNL, WordBoundary]"
    by (simp add: reg_def)
  from assms show c: "CHR '':'' \<in> set mt"
    unfolding r1 by (rule amatch_literal_mem)
  show "CHR 0x0A \<notin> set mt"
  proof
    assume "CHR 0x0A \<in> set mt"
    from amatch_bytes [OF assms this] show False
      by (auto simp: reg_def not_word_bytes)
  qed
  have r2: "reg = [WordBoundary, Star WordClass, Literal CHR ''k'', Literal CHR ''i'',
      Literal CHR ''n'', Literal CHR ''d'', Literal CHR '':'', Star WordClass, NoWordBoundary,
      Star AnyCharNotNL] @ [WordBoundary]"
    by (simp add: reg_def)
  from assms have "at_word_boundary (lastc prev mt) post"
    unfolding r2 by (rule amatch_end_boundary)
  moreover from c have "mt \<noteq> []" by auto
  ultimately show "at_word_boundary (Some (last mt)) post"
    by (simp add: lastc_def)
qed


subsection \<open>Leftmost and longest\<close>

lemma append_split_longer:
  assumes "a @ b = a' @ b'" and "length a' < length a"
  shows "\<exists>p. a = a' @ p \<and> p \<noteq> [] \<and> b' = p @ b"
proof -
  from assms have "a' = take (length a') (a @ b)" by simp
  with assms(2) have a': "a' = take (length a') a" by simp
  then have a: "a = a' @ drop (length a') a"
    by (metis append_take_drop_id)
  with assms(1) have "a' @ drop (length a') a @ b = a' @ b'"
    by (metis append_assoc)
  then have "b' = drop (length a') a @ b" by simp
  moreover from assms(2) have "drop (length a') a \<noteq> []" by simp
  ultimately show ?thesis using a by blast
qed

lemma rmatch_reg_longest:
  assumes r: "rmatch reg prev (mt @ post) = Some post"
    and a: "amatch reg prev mt' post'"
    and e: "mt @ post = mt' @ post'"
  shows "length mt' \<le> length mt"
proof (rule ccontr)
  assume "\<not> length mt' \<le> length mt"
  then have "length mt < length mt'" by simp
  with append_split_longer [OF e [symmetric]]
  obtain x where x: "mt' = mt @ x" and nx: "x \<noteq> []" and px: "post = x @ post'"
    by metis
  from amatch_reg_shape [OF a] x nx have nl: "CHR 0x0A \<notin> set x"
    and b: "at_word_boundary (Some (last x)) post'"
    by simp_all
  from nl have t: "takeWhile (\<lambda>c. c \<noteq> CHR 0x0A) (x @ post')
      = x @ takeWhile (\<lambda>c. c \<noteq> CHR 0x0A) post'"
    by (induction x) auto
  from rmatch_reg_greedy [OF r] px t
  have g: "\<forall>c\<in>set x \<union> set (takeWhile (\<lambda>c. c \<noteq> CHR 0x0A) post'). \<not> is_word_char c"
    by simp
  from nx have "last x \<in> set x" by simp
  with g have lx: "\<not> is_word_char (last x)" by blast
  with b obtain y ys where p: "post' = y # ys" and y: "is_word_char y"
    by (cases post') (auto simp: at_word_boundary_def)
  from y not_word_bytes(2) have "y \<noteq> CHR 0x0A" by auto
  with p have "y \<in> set (takeWhile (\<lambda>c. c \<noteq> CHR 0x0A) post')" by simp
  with g y show False by blast
qed

lemma find_from_Some:
  "find_from re prev s = Some mt \<Longrightarrow>
     \<exists>pre post. s = pre @ mt @ post \<and> rmatch re (lastc prev pre) (mt @ post) = Some post \<and>
       (\<forall>p1 p2. pre = p1 @ p2 \<and> p2 \<noteq> [] \<longrightarrow> rmatch re (lastc prev p1) (p2 @ mt @ post) = None)"
proof (induction s arbitrary: prev)
  case Nil
  then obtain r where r: "rmatch re prev [] = Some r" and m: "mt = []"
    by (auto split: option.splits)
  from rmatch_sound [OF r] have "r = []" by simp
  with r m have "[] = [] @ mt @ [] \<and> rmatch re (lastc prev []) (mt @ []) = Some [] \<and>
      (\<forall>p1 p2. [] = p1 @ p2 \<and> p2 \<noteq> [] \<longrightarrow> rmatch re (lastc prev p1) (p2 @ mt @ []) = None)"
    by simp
  then show ?case by blast
next
  case (Cons x xs)
  show ?case
  proof (cases "rmatch re prev (x # xs)")
    case (Some r)
    from rmatch_sound [OF Some] obtain c where c: "x # xs = c @ r" by blast
    from Cons.prems Some have "mt = take (length (x # xs) - length r) (x # xs)" by simp
    with c have m: "mt = c" by simp
    with c Some have "x # xs = [] @ mt @ r \<and> rmatch re (lastc prev []) (mt @ r) = Some r \<and>
        (\<forall>p1 p2. [] = p1 @ p2 \<and> p2 \<noteq> [] \<longrightarrow> rmatch re (lastc prev p1) (p2 @ mt @ r) = None)"
      by simp
    then show ?thesis by blast
  next
    case None
    with Cons.prems have "find_from re (Some x) xs = Some mt" by simp
    from Cons.IH [OF this] obtain pre post where s: "xs = pre @ mt @ post"
      and r: "rmatch re (lastc (Some x) pre) (mt @ post) = Some post"
      and n: "\<forall>p1 p2. pre = p1 @ p2 \<and> p2 \<noteq> [] \<longrightarrow>
        rmatch re (lastc (Some x) p1) (p2 @ mt @ post) = None"
      by blast
    have "rmatch re (lastc prev p1) (p2 @ mt @ post) = None"
      if "x # pre = p1 @ p2" and "p2 \<noteq> []" for p1 p2
    proof (cases p1)
      case Nil
      with that have "p2 = x # pre" by simp
      with s None Nil show ?thesis by simp
    next
      case (Cons y p1')
      with that have "pre = p1' @ p2" and "y = x" by simp_all
      with n that(2) Cons show ?thesis by (simp add: lastc_Cons)
    qed
    with s r have "x # xs = (x # pre) @ mt @ post \<and>
        rmatch re (lastc prev (x # pre)) (mt @ post) = Some post \<and>
        (\<forall>p1 p2. x # pre = p1 @ p2 \<and> p2 \<noteq> [] \<longrightarrow>
           rmatch re (lastc prev p1) (p2 @ mt @ post) = None)"
      by (simp add: lastc_Cons)
    then show ?thesis by blast
  qed
qed

lemma find_from_None:
  "find_from re prev s = None \<Longrightarrow> s = p1 @ p2 \<Longrightarrow> rmatch re (lastc prev p1) p2 = None"
proof (induction s arbitrary: prev p1)
  case Nil
  then show ?case by (auto split: option.splits)
next
  case (Cons x xs)
  from Cons.prems(1) have n: "rmatch re prev (x # xs) = None"
    and f: "find_from re (Some x) xs = None"
    by (auto split: option.splits)
  show ?case
  proof (cases p1)
    case Nil
    with Cons.prems(2) n show ?thesis by simp
  next
    case (Cons y p1')
    with Cons.prems(2) have "xs = p1' @ p2" and "y = x" by simp_all
    with Cons.IH [OF f this(1)] Cons show ?thesis by (simp add: lastc_Cons)
  qed
qed

lemma Split_unfold:
  "Split s c = takeWhile (\<lambda>x. x \<noteq> c) s #
     (case dropWhile (\<lambda>x. x \<noteq> c) s of [] \<Rightarrow> [] | y # t \<Rightarrow> Split t c)"
  by (induction s) auto

lemma Split_second:
  assumes "c \<in> set s"
  shows "\<not> length (Split s c) \<le> 1"
    and "Split s c ! 1 = takeWhile (\<lambda>x. x \<noteq> c) (tl (dropWhile (\<lambda>x. x \<noteq> c) s))"
proof -
  from assms obtain y t where d: "dropWhile (\<lambda>x. x \<noteq> c) s = y # t"
    by (cases "dropWhile (\<lambda>x. x \<noteq> c) s") (auto simp: dropWhile_eq_Nil_conv)
  have "Split s c = takeWhile (\<lambda>x. x \<noteq> c) s # Split t c"
    by (subst Split_unfold) (simp add: d)
  also have "Split t c = takeWhile (\<lambda>x. x \<noteq> c) t #
      (case dropWhile (\<lambda>x. x \<noteq> c) t of [] \<Rightarrow> [] | y # t \<Rightarrow> Split t c)"
    by (rule Split_unfold)
  finally have e: "Split s c = takeWhile (\<lambda>x. x \<noteq> c) s # takeWhile (\<lambda>x. x \<noteq> c) t #
      (case dropWhile (\<lambda>x. x \<noteq> c) t of [] \<Rightarrow> [] | y # t \<Rightarrow> Split t c)" .
  show "\<not> length (Split s c) \<le> 1" by (subst e) simp
  show "Split s c ! 1 = takeWhile (\<lambda>x. x \<noteq> c) (tl (dropWhile (\<lambda>x. x \<noteq> c) s))"
    by (subst e) (simp add: d)
qed


text \<open>
  C8 (amended). For every raw manifest, the kind label is taken from the leftmost and,
  there, longest match of the pattern \<^verbatim>\<open>\b(\w*kind:\w*)\B.*\b\<close> in the whole text of
  the manifest, wherever that match lies: at the document root, in a nested field or in
  a comment. The label is the text of the match between its first colon and its next
  colon, or its end, without the white space around it. When the pattern matches
  nowhere in the text, no label is extracted: the index into the split panics.
\<close>

theorem kind_from_leftmost_match:
  "(manifest_kind m = Panicked IndexOutOfRange \<and>
      (\<forall>pre mt post. m = pre @ mt @ post \<longrightarrow> \<not> amatch reg (lastc None pre) mt post)) \<or>
   (\<exists>pre mt post. m = pre @ mt @ post \<and> amatch reg (lastc None pre) mt post \<and>
      (\<forall>pre' mt' post'. m = pre' @ mt' @ post' \<and> amatch reg (lastc None pre') mt' post' \<longrightarrow>
         length pre < length pre' \<or> (length pre' = length pre \<and> length mt' \<le> length mt)) \<and>
      manifest_kind m = Returned (label_of mt))"
proof (cases "find_from reg None m")
  case None
  then have "manifest_kind m = Panicked IndexOutOfRange"
    by (simp add: manifest_kind_def FindString_def)
  moreover have "\<not> amatch reg (lastc None pre) mt post" if "m = pre @ mt @ post" for pre mt post
  proof
    assume "amatch reg (lastc None pre) mt post"
    from rmatch_complete [OF this refl]
    have "rmatch reg (lastc None pre) (mt @ post) \<noteq> None" .
    with find_from_None [OF None that] show False by simp
  qed
  ultimately show ?thesis by blast
next
  case (Some mt)
  from find_from_Some [OF Some] obtain pre post where m: "m = pre @ mt @ post"
    and r: "rmatch reg (lastc None pre) (mt @ post) = Some post"
    and n: "\<forall>p1 p2. pre = p1 @ p2 \<and> p2 \<noteq> [] \<longrightarrow>
      rmatch reg (lastc None p1) (p2 @ mt @ post) = None"
    by blast
  from rmatch_sound [OF r] have a: "amatch reg (lastc None pre) mt post" by simp
  have l: "length pre < length pre' \<or> (length pre' = length pre \<and> length mt' \<le> length mt)"
    if m': "m = pre' @ mt' @ post'" and a': "amatch reg (lastc None pre') mt' post'"
    for pre' mt' post'
  proof (cases "length pre' < length pre")
    case True
    from m m' have "pre @ (mt @ post) = pre' @ (mt' @ post')" by simp
    from append_split_longer [OF this True]
    obtain p2 where p: "pre = pre' @ p2" and "p2 \<noteq> []"
      and e: "p2 @ mt @ post = mt' @ post'"
      by metis
    with n have "rmatch reg (lastc None pre') (p2 @ mt @ post) = None" by blast
    with rmatch_complete [OF a' e] show ?thesis by simp
  next
    case False
    show ?thesis
    proof (cases "length pre' = length pre")
      case True
      with m m' have "pre' = pre" and e: "mt @ post = mt' @ post'" by simp_all
      with a' rmatch_reg_longest [OF r _ e] True show ?thesis by simp
    next
      case ne: False
      with False show ?thesis by simp
    qed
  qed
  from amatch_reg_shape(1) [OF a] have c: "CHR '':'' \<in> set mt" .
  from Some have f: "FindString reg m = mt" by (simp add: FindString_def)
  have "manifest_kind m = Returned (label_of mt)"
    using Split_second [OF c] by (simp add: manifest_kind_def f label_of_def)
  with m a l show ?thesis by blast
qed

theorem kind_from_leftmost_match_witness:
  "\<exists>pre mt post. ''# kind: Pod\<newline>kind: Namespace'' = pre @ mt @ post \<and>
     amatch reg (lastc None pre) mt post \<and>
     manifest_kind ''# kind: Pod\<newline>kind: Namespace'' = Returned (label_of mt) \<and>
     label_of mt = ''Pod''"
proof -
  have v: "manifest_kind ''# kind: Pod\<newline>kind: Namespace'' = Returned ''Pod''"
    by (simp add: manifest_kind_def FindString_def reg_def at_word_boundary_def is_word_char_def
        TrimSpace_def space_runes_def trim_left.simps)
  from kind_from_leftmost_match [of "''# kind: Pod\<newline>kind: Namespace''"] v
  obtain pre mt post where "''# kind: Pod\<newline>kind: Namespace'' = pre @ mt @ post"
    and "amatch reg (lastc None pre) mt post"
    and "manifest_kind ''# kind: Pod\<newline>kind: Namespace'' = Returned (label_of mt)"
    by auto
  with v show ?thesis by auto
qed

theorem kind_not_from_root_counterexample:
  "manifest_kind ''# kind: Pod\<newline>kind: Namespace'' = Returned ''Pod'' \<and>
   root_kind_spec ''# kind: Pod\<newline>kind: Namespace'' = Some ''Namespace'' \<and>
   manifest_kind ''roleRef:\<newline>  kind: ClusterRole\<newline>kind: RoleBinding''
     = Returned ''ClusterRole'' \<and>
   root_kind_spec ''roleRef:\<newline>  kind: ClusterRole\<newline>kind: RoleBinding''
     = Some ''RoleBinding''"
  by (simp add: manifest_kind_def FindString_def reg_def at_word_boundary_def is_word_char_def
      TrimSpace_def space_runes_def trim_left.simps root_kind_spec_def)

end
